theory Spec2Isabelle
  imports Main "HOL-Library.AList"
begin

section \<open>Python values\<close>

text \<open>
  The script \<^verbatim>\<open>mcp_pdl_initialization.py\<close> builds one nested dictionary of string
  literals, stamps it with \<^verbatim>\<open>datetime.now().isoformat()\<close> and prints
  \<^verbatim>\<open>json.dumps(status, indent=2)\<close>.

  A Python \<^verbatim>\<open>str\<close> is modelled as a \<^typ>\<open>string\<close> whose characters are the code
  points below 256 (every literal of the script is ASCII). A \<^verbatim>\<open>dict\<close> keeps
  insertion order, so it is an association list with string keys. A naive
  \<^verbatim>\<open>datetime\<close> object is a record of its seven fields; it is also the one kind of
  value in the model that \<^verbatim>\<open>json.dumps\<close> cannot render.
\<close>

record datetime =
  year :: nat
  month :: nat
  day :: nat
  hour :: nat
  minute :: nat
  second :: nat
  microsecond :: nat

datatype pyval =
    PNone
  | PBool bool
  | PInt int
  | PStr string
  | PList "pyval list"
  | PDict "(string \<times> pyval) list"
  | PDatetime datetime

text \<open>
  The exceptions that can end the program: \<^verbatim>\<open>TypeError\<close> from the encoder,
  \<^verbatim>\<open>UnicodeEncodeError\<close> and \<^verbatim>\<open>OSError\<close> from writing to standard output.
\<close>

datatype error = TypeError | UnicodeEncodeError | OSError

fun dict_keys :: "pyval \<Rightarrow> string list" where
  "dict_keys (PDict kvs) = map fst kvs"
| "dict_keys _ = []"

fun dict_get :: "pyval \<Rightarrow> string \<Rightarrow> pyval option" where
  "dict_get (PDict kvs) k = map_of kvs k"
| "dict_get _ k = None"

fun dict_values :: "pyval \<Rightarrow> pyval list" where
  "dict_values (PDict kvs) = map snd kvs"
| "dict_values _ = []"

fun is_str :: "pyval \<Rightarrow> bool" where
  "is_str (PStr s) = True"
| "is_str _ = False"

section \<open>The clock and \<^verbatim>\<open>datetime.isoformat\<close>\<close>

text \<open>
  Standard output as the interpreter hands it to the script on a POSIX host (a newline
  is written as it is): a text stream with an encoding, in front of a device. The
  interpreter sets the stream up before the script runs, from the environment (\<^verbatim>\<open>PYTHONIOENCODING\<close>, the locale, \<^verbatim>\<open>PYTHONUNBUFFERED\<close> or
  \<^verbatim>\<open>-u\<close>) and from what the descriptor is:
  \<^item> \<open>encoding\<close> is one of four codecs, with the default strict error handling;
  \<^item> \<open>start_of_stream\<close> holds when the descriptor is seekable and at position 0 (a fresh
    file, not a pipe or a terminal): the first write of UTF-16 then begins with a byte
    order mark;
  \<^item> \<open>write_through\<close> holds for an unbuffered stream: every write goes to the device at once;
  \<^item> \<open>pending\<close> are the encoded bytes not yet handed to the device;
  \<^item> \<open>accepts\<close> tells whether the device takes what is written to it (a full device
    or a pipe whose reader has gone does not);
  \<^item> \<open>written\<close> are the bytes the device has taken.
\<close>

datatype codec = UTF8 | LATIN1 | ASCII | UTF16

record stream =
  encoding :: codec
  start_of_stream :: bool
  write_through :: bool
  pending :: string
  accepts :: bool
  written :: string

text \<open>
  The process sees its surroundings through a \<open>world\<close>: the command line, the
  environment, a clock (the n-th reading is \<open>clock w n\<close>; \<open>clock_reads\<close> counts the
  readings taken so far) and standard output, which is \<open>None\<close> when the descriptor was
  closed at start-up (\<^verbatim>\<open>sys.stdout\<close> is then \<^verbatim>\<open>None\<close>).
\<close>

record world =
  argv :: "string list"
  environ :: "(string \<times> string) list"
  clock :: "nat \<Rightarrow> datetime"
  clock_reads :: nat
  stdout :: "stream option"

definition datetime_now :: "world \<Rightarrow> datetime \<times> world" where
  "datetime_now w = (clock w (clock_reads w), w\<lparr>clock_reads := Suc (clock_reads w)\<rparr>)"

definition digit_char :: "nat \<Rightarrow> char" where
  "digit_char n = ''0123456789'' ! n"

fun dec :: "nat \<Rightarrow> string" where
  "dec n = (if n < 10 then [digit_char n] else dec (n div 10) @ [digit_char (n mod 10)])"

declare dec.simps [simp del]

text \<open>\<^verbatim>\<open>"%0wd" % n\<close> for a non-negative \<open>n\<close>: the decimal digits, left-padded with zeros.\<close>

definition fmt_d :: "nat \<Rightarrow> nat \<Rightarrow> string" where
  "fmt_d w n = replicate (w - length (dec n)) (CHR ''0'') @ dec n"

text \<open>
  \<^verbatim>\<open>datetime.isoformat()\<close> with the defaults \<^verbatim>\<open>sep='T', timespec='auto'\<close> on a naive
  datetime: the microseconds are printed only when they are not zero, and there is no
  offset suffix.
\<close>

definition format_time :: "datetime \<Rightarrow> string" where
  "format_time d =
     fmt_d 2 (hour d) @ '':'' @ fmt_d 2 (minute d) @ '':'' @ fmt_d 2 (second d) @
     (if microsecond d \<noteq> 0 then ''.'' @ fmt_d 6 (microsecond d) else [])"

definition isoformat :: "datetime \<Rightarrow> string" where
  "isoformat d =
     fmt_d 4 (year d) @ ''-'' @ fmt_d 2 (month d) @ ''-'' @ fmt_d 2 (day d) @ ''T'' @
     format_time d"

section \<open>The builder\<close>

definition create_project_status :: "world \<Rightarrow> pyval \<times> world" where
  "create_project_status w =
    (let (now, w') = datetime_now w;
         status = PDict [
           (''project_name'', PStr ''Caesar Token DEX/Wallet/App Development''),
           (''project_path'', PStr ''/home/persist/repos/work/vazio/caesar''),
           (''current_phase'', PStr ''Assessment & Planning''),
           (''phase_status'', PStr ''INITIALIZING''),
           (''last_updated'', PStr (isoformat now)),
           (''completed_infrastructure'', PDict [
             (''phase_3_status'', PStr ''COMPLETED''),
             (''smart_contracts'', PDict [
               (''dex_factory'', PStr ''0xAe0DfF19f44D3544139d900a3f9f6c03C6764538''),
               (''caesar_token'',
                  PStr ''0x6299744254422aadb6a57183f47eaae1678cf86cc58a0c78dfc4fd2caa3ba2a4''),
               (''network'', PStr ''Sepolia Testnet'')]),
             (''frontend_applications'', PDict [
               (''dex_interface'', PStr ''React/TypeScript - BUILT''),
               (''cross_chain_bridge'', PStr ''LayerZero V2 - BUILT''),
               (''analytics_dashboard'', PStr ''Real-time charts - BUILT''),
               (''wallet_integration'', PStr ''RainbowKit multi-chain - BUILT'')])]),
           (''development_requirements'', PDict [
             (''agora_dex'', PDict [
               (''status'', PStr ''PARTIALLY_IMPLEMENTED''),
               (''location'', PStr ''scrolls-app/agora-dex/''),
               (''needs'', PList [
                 PStr ''Enhanced trading features'',
                 PStr ''Advanced analytics'',
                 PStr ''DAO integration'',
                 PStr ''Mobile optimization'',
                 PStr ''Production deployment''])]),
             (''satchel_wallet'', PDict [
               (''status'', PStr ''BASIC_IMPLEMENTATION''),
               (''location'', PStr ''scrolls-app/satchel-wallet/''),
               (''needs'', PList [
                 PStr ''Hardware wallet support'',
                 PStr ''Advanced Caesar optimizations'',
                 PStr ''DeFi protocol integrations'',
                 PStr ''Portfolio management'',
                 PStr ''Security enhancements''])]),
             (''tablets_ui'', PDict [
               (''status'', PStr ''PARTIAL_ANALYTICS''),
               (''location'', PStr ''scrolls-app/tablets-ui/''),
               (''needs'', PList [
                 PStr ''Complete portfolio dashboard'',
                 PStr ''Advanced token analytics'',
                 PStr ''Mining interface'',
                 PStr ''Performance monitoring'',
                 PStr ''Cross-chain bridge UI enhancement''])])]),
           (''next_actions'', PList [
             PStr ''Initialize PDL repository tracking'',
             PStr ''Create comprehensive roadmap for ecosystem expansion'',
             PStr ''Delegate to appropriate specialized agents'',
             PStr ''Set up parallel development workflows'',
             PStr ''Plan integration testing strategy''])]
     in (status, w'))"

section \<open>\<^verbatim>\<open>json.dumps\<close> with an indent\<close>

text \<open>
  \<^verbatim>\<open>py_encode_basestring_ascii\<close> (the default \<^verbatim>\<open>ensure_ascii=True\<close>): the backslash,
  the double quote and five control characters have two-character escapes, the
  printable ASCII characters stand for themselves, and everything else is written
  \<^verbatim>\<open>\uXXXX\<close> with lower-case hexadecimal digits.
\<close>

definition hex_char :: "nat \<Rightarrow> char" where
  "hex_char n = ''0123456789abcdef'' ! n"

definition u_escape :: "nat \<Rightarrow> string" where
  "u_escape n =
     [CHR 0x5C, CHR ''u'', hex_char (n div 4096 mod 16), hex_char (n div 256 mod 16),
      hex_char (n div 16 mod 16), hex_char (n mod 16)]"

definition escape_char :: "char \<Rightarrow> string" where
  "escape_char c =
     (if c = CHR 0x5C then [CHR 0x5C, CHR 0x5C]
      else if c = CHR 0x22 then [CHR 0x5C, CHR 0x22]
      else if c = CHR 0x08 then [CHR 0x5C, CHR ''b'']
      else if c = CHR 0x0C then [CHR 0x5C, CHR ''f'']
      else if c = CHR 0x0A then [CHR 0x5C, CHR ''n'']
      else if c = CHR 0x0D then [CHR 0x5C, CHR ''r'']
      else if c = CHR 0x09 then [CHR 0x5C, CHR ''t'']
      else if 32 \<le> (of_char c :: nat) \<and> (of_char c :: nat) \<le> 126 then [c]
      else u_escape (of_char c))"

definition encode_basestring_ascii :: "string \<Rightarrow> string" where
  "encode_basestring_ascii s = CHR 0x22 # concat (map escape_char s) @ [CHR 0x22]"

definition intstr :: "int \<Rightarrow> string" where
  "intstr i = (if i < 0 then CHR ''-'' # dec (nat (- i)) else dec (nat i))"

text \<open>
  The encoder proper (\<^verbatim>\<open>_make_iterencode\<close>, the path taken whenever an indent is
  given). \<open>ind\<close> is the indent width and \<open>lvl\<close> the current nesting level. With an
  indent the item separator is a comma followed by a newline and the indentation, and the
  key separator is a colon and a space. An empty list or dict is \<^verbatim>\<open>[]\<close> or \<^verbatim>\<open>{}\<close>. A value
  of any other type reaches \<^verbatim>\<open>default()\<close>, which raises \<^verbatim>\<open>TypeError\<close>.
\<close>

definition newline_indent :: "nat \<Rightarrow> nat \<Rightarrow> string" where
  "newline_indent ind lvl = CHR 0x0A # replicate (ind * lvl) (CHR '' '')"

definition separator :: "nat \<Rightarrow> nat \<Rightarrow> string" where
  "separator ind lvl = CHR '','' # newline_indent ind lvl"

fun iterencode :: "nat \<Rightarrow> nat \<Rightarrow> pyval \<Rightarrow> error + string"
  and iterencode_items :: "nat \<Rightarrow> nat \<Rightarrow> pyval list \<Rightarrow> error + string"
  and iterencode_members :: "nat \<Rightarrow> nat \<Rightarrow> (string \<times> pyval) list \<Rightarrow> error + string"
where
  "iterencode ind lvl PNone = Inr ''null''"
| "iterencode ind lvl (PBool b) = Inr (if b then ''true'' else ''false'')"
| "iterencode ind lvl (PInt i) = Inr (intstr i)"
| "iterencode ind lvl (PStr s) = Inr (encode_basestring_ascii s)"
| "iterencode ind lvl (PList xs) =
     (if xs = [] then Inr ''[]''
      else (case iterencode_items ind (Suc lvl) xs of
              Inl e \<Rightarrow> Inl e
            | Inr body \<Rightarrow>
                Inr (''['' @ newline_indent ind (Suc lvl) @ body @ newline_indent ind lvl @ '']'')))"
| "iterencode ind lvl (PDict kvs) =
     (if kvs = [] then Inr ''{}''
      else (case iterencode_members ind (Suc lvl) kvs of
              Inl e \<Rightarrow> Inl e
            | Inr body \<Rightarrow>
                Inr (''{'' @ newline_indent ind (Suc lvl) @ body @ newline_indent ind lvl @ ''}'')))"
| "iterencode ind lvl (PDatetime d) = Inl TypeError"
| "iterencode_items ind lvl [] = Inr []"
| "iterencode_items ind lvl (x # xs) =
     (case iterencode ind lvl x of
        Inl e \<Rightarrow> Inl e
      | Inr chunk \<Rightarrow>
          if xs = [] then Inr chunk
          else (case iterencode_items ind lvl xs of
                  Inl e \<Rightarrow> Inl e
                | Inr later \<Rightarrow> Inr (chunk @ separator ind lvl @ later)))"
| "iterencode_members ind lvl [] = Inr []"
| "iterencode_members ind lvl ((k, v) # kvs) =
     (case iterencode ind lvl v of
        Inl e \<Rightarrow> Inl e
      | Inr chunk \<Rightarrow>
          if kvs = [] then Inr (encode_basestring_ascii k @ '': '' @ chunk)
          else (case iterencode_members ind lvl kvs of
                  Inl e \<Rightarrow> Inl e
                | Inr later \<Rightarrow>
                    Inr (encode_basestring_ascii k @ '': '' @ chunk @ separator ind lvl @ later)))"

definition json_dumps :: "pyval \<Rightarrow> nat \<Rightarrow> error + string" where
  "json_dumps obj indent = iterencode indent 0 obj"

section \<open>Writing to standard output\<close>

text \<open>
  Encoding a text of code points below 256. UTF-8 takes two bytes from 128 on, Latin-1 is
  the identity, ASCII rejects everything from 128 on (\<open>None\<close>: \<^verbatim>\<open>UnicodeEncodeError\<close>), and
  UTF-16 takes two bytes per character, low byte first (the byte order of the host, here
  little-endian).
\<close>

fun encode_char :: "codec \<Rightarrow> char \<Rightarrow> string option" where
  "encode_char UTF8 c =
     Some (if (of_char c :: nat) < 128 then [c]
           else [char_of (192 + (of_char c :: nat) div 64), char_of (128 + (of_char c :: nat) mod 64)])"
| "encode_char LATIN1 c = Some [c]"
| "encode_char ASCII c = (if (of_char c :: nat) < 128 then Some [c] else None)"
| "encode_char UTF16 c = Some [c, CHR 0x00]"

fun encode_text :: "codec \<Rightarrow> string \<Rightarrow> string option" where
  "encode_text enc [] = Some []"
| "encode_text enc (c # cs) =
     (case encode_char enc c of
        None \<Rightarrow> None
      | Some b \<Rightarrow> (case encode_text enc cs of None \<Rightarrow> None | Some bs \<Rightarrow> Some (b @ bs)))"

definition bom :: "stream \<Rightarrow> string" where
  "bom st = (if encoding st = UTF16 \<and> start_of_stream st then [CHR 0xFF, CHR 0xFE] else [])"

text \<open>
  The text layer keeps encoded bytes until there are \<open>chunk_size\<close> of them, unless the
  stream is unbuffered. Here one buffer stands for the buffers of the text and the binary
  layer: what is not handed to the device during a write waits for a flush.
\<close>

definition chunk_size :: nat where
  "chunk_size = 8192"

text \<open>
  \<^verbatim>\<open>sys.stdout.write(text)\<close>. The text is encoded as a whole; if that fails nothing is
  buffered. When the bytes go to the device and the device does not take them, the write
  raises \<^verbatim>\<open>OSError\<close> and the bytes are lost.
\<close>

definition stream_write :: "string \<Rightarrow> stream \<Rightarrow> (error \<times> stream) + stream" where
  "stream_write s st =
     (case encode_text (encoding st) s of
        None \<Rightarrow> Inl (UnicodeEncodeError, st)
      | Some bytes \<Rightarrow>
          (let st1 = st\<lparr>start_of_stream := False, pending := pending st @ bom st @ bytes\<rparr>
           in if write_through st \<or> chunk_size \<le> length (pending st1) then
                (if pending st1 = [] then Inr st1
                 else if accepts st then
                   Inr (st1\<lparr>pending := [], written := written st @ pending st1\<rparr>)
                 else Inl (OSError, st1\<lparr>pending := []\<rparr>))
              else Inr st1))"

definition flush :: "stream \<Rightarrow> error + stream" where
  "flush st =
     (if pending st = [] then Inr st
      else if accepts st then Inr (st\<lparr>pending := [], written := written st @ pending st\<rparr>)
      else Inl OSError)"

text \<open>
  \<^verbatim>\<open>print(s)\<close> writes the text and then a newline to \<^verbatim>\<open>sys.stdout\<close>, and does nothing
  when \<^verbatim>\<open>sys.stdout\<close> is \<^verbatim>\<open>None\<close>. A raised exception comes with the world as it is then.
\<close>

definition print :: "string \<Rightarrow> world \<Rightarrow> (error \<times> world) + world" where
  "print s w =
     (case stdout w of
        None \<Rightarrow> Inr w
      | Some st \<Rightarrow>
          (case stream_write s st of
             Inl (e, st1) \<Rightarrow> Inl (e, w\<lparr>stdout := Some st1\<rparr>)
           | Inr st1 \<Rightarrow>
               (case stream_write [CHR 0x0A] st1 of
                  Inl (e, st2) \<Rightarrow> Inl (e, w\<lparr>stdout := Some st2\<rparr>)
                | Inr st2 \<Rightarrow> Inr (w\<lparr>stdout := Some st2\<rparr>))))"

section \<open>The program\<close>

text \<open>The \<^verbatim>\<open>__main__\<close> block.\<close>

definition run_main :: "world \<Rightarrow> (error \<times> world) + world" where
  "run_main w =
     (let (status, w1) = create_project_status w
      in (case json_dumps status 2 of
            Inl e \<Rightarrow> Inl (e, w1)
          | Inr out \<Rightarrow> print out w1))"

text \<open>
  The interpreter running the script: the \<^verbatim>\<open>__main__\<close> block, then the flush of standard
  output at shutdown. An exception that nothing catches gives exit status 1, a normal
  end 0, and a flush that fails at shutdown gives 120 whatever came before.
\<close>

definition run_process :: "world \<Rightarrow> nat \<times> world" where
  "run_process w =
     (let (code, w1) = (case run_main w of Inl (e, w1) \<Rightarrow> (1, w1) | Inr w1 \<Rightarrow> (0, w1))
      in (case stdout w1 of
            None \<Rightarrow> (code, w1)
          | Some st \<Rightarrow>
              (case flush st of
                 Inl e \<Rightarrow> (120, w1)
               | Inr st1 \<Rightarrow> (code, w1\<lparr>stdout := Some st1\<rparr>))))"

definition exit_status :: "world \<Rightarrow> nat" where
  "exit_status w = fst (run_process w)"

section \<open>\<^verbatim>\<open>json.loads\<close>\<close>

text \<open>
  Reading a document back is the standard library's decoder: \<^verbatim>\<open>py_scanstring\<close> in strict
  mode, the number pattern, and the recursive scanner for arrays and objects, with
  whitespace skipped where the decoder skips it. Two things lie outside the value model
  and are rejected: floating-point numbers, and \<^verbatim>\<open>\uXXXX\<close> escapes of code points above
  255. The scanner's recursion is bounded by a fuel that \<open>json_loads\<close> sets to the length
  of the text; every call consumes at least one character, so it never runs out.
\<close>

definition is_digit :: "char \<Rightarrow> bool" where
  "is_digit c \<longleftrightarrow> c \<in> set ''0123456789''"

definition digit_val :: "char \<Rightarrow> nat" where
  "digit_val c = of_char c - 48"

definition is_ws :: "char \<Rightarrow> bool" where
  "is_ws c \<longleftrightarrow> c = CHR '' '' \<or> c = CHR 0x09 \<or> c = CHR 0x0A \<or> c = CHR 0x0D"

fun skip_ws :: "string \<Rightarrow> string" where
  "skip_ws [] = []"
| "skip_ws (c # cs) = (if is_ws c then skip_ws cs else c # cs)"

definition hex_val :: "char \<Rightarrow> nat option" where
  "hex_val c =
     (if is_digit c then Some (digit_val c)
      else if c \<in> set ''abcdef'' then Some (of_char c - 87)
      else if c \<in> set ''ABCDEF'' then Some (of_char c - 55)
      else None)"

definition unescape :: "char \<Rightarrow> char option" where
  "unescape e =
     (if e = CHR 0x22 then Some (CHR 0x22)
      else if e = CHR 0x5C then Some (CHR 0x5C)
      else if e = CHR ''/'' then Some (CHR ''/'')
      else if e = CHR ''b'' then Some (CHR 0x08)
      else if e = CHR ''f'' then Some (CHR 0x0C)
      else if e = CHR ''n'' then Some (CHR 0x0A)
      else if e = CHR ''r'' then Some (CHR 0x0D)
      else if e = CHR ''t'' then Some (CHR 0x09)
      else None)"

definition decode_hex4 :: "char \<Rightarrow> char \<Rightarrow> char \<Rightarrow> char \<Rightarrow> char option" where
  "decode_hex4 a b c d =
     (case (hex_val a, hex_val b, hex_val c, hex_val d) of
        (Some x, Some y, Some z, Some u) \<Rightarrow>
          (let n = ((x * 16 + y) * 16 + z) * 16 + u
           in if n < 256 then Some (char_of n) else None)
      | _ \<Rightarrow> None)"

definition cons_result :: "char \<Rightarrow> (string \<times> string) option \<Rightarrow> (string \<times> string) option" where
  "cons_result c r = (case r of None \<Rightarrow> None | Some (s, rest) \<Rightarrow> Some (c # s, rest))"

text \<open>\<open>scanstring\<close> starts just after the opening quote and returns the text after the closing one.\<close>

fun scanstring :: "string \<Rightarrow> (string \<times> string) option" where
  "scanstring [] = None"
| "scanstring (c # cs) =
     (if c = CHR 0x22 then Some ([], cs)
      else if c = CHR 0x5C then
        (case cs of
           [] \<Rightarrow> None
         | e # es \<Rightarrow>
             if e = CHR ''u'' then
               (case es of
                  h1 # h2 # h3 # h4 # r \<Rightarrow>
                    (case decode_hex4 h1 h2 h3 h4 of
                       None \<Rightarrow> None
                     | Some ch \<Rightarrow> cons_result ch (scanstring r))
                | _ \<Rightarrow> None)
             else
               (case unescape e of
                  None \<Rightarrow> None
                | Some ch \<Rightarrow> cons_result ch (scanstring es)))
      else if (of_char c :: nat) < 32 then None
      else cons_result c (scanstring cs))"

definition digits_val :: "string \<Rightarrow> nat" where
  "digits_val ds = foldl (\<lambda>a c. 10 * a + digit_val c) 0 ds"

text \<open>
  The number pattern \<^verbatim>\<open>-?(0|[1-9][0-9]*)\<close>; a fraction or an exponent after it would make
  a float.
\<close>

definition scan_digits :: "string \<Rightarrow> (nat \<times> string) option" where
  "scan_digits s =
     (case s of
        [] \<Rightarrow> None
      | c # cs \<Rightarrow>
          if c = CHR ''0'' then Some (0, cs)
          else if is_digit c then
            Some (digits_val (c # takeWhile is_digit cs), dropWhile is_digit cs)
          else None)"

definition scan_number :: "string \<Rightarrow> (pyval \<times> string) option" where
  "scan_number s =
     (let (neg, s1) = (case s of [] \<Rightarrow> (False, s)
                       | c # cs \<Rightarrow> if c = CHR ''-'' then (True, cs) else (False, s))
      in case scan_digits s1 of
           None \<Rightarrow> None
         | Some (n, rest) \<Rightarrow>
             (case rest of
                [] \<Rightarrow> Some (PInt (if neg then - int n else int n), rest)
              | c # cs \<Rightarrow>
                  if c = CHR ''.'' \<or> c = CHR ''e'' \<or> c = CHR ''E'' then None
                  else Some (PInt (if neg then - int n else int n), rest)))"

definition match_literal :: "string \<Rightarrow> string \<Rightarrow> string option" where
  "match_literal lit s = (if take (length lit) s = lit then Some (drop (length lit) s) else None)"

text \<open>\<^verbatim>\<open>dict(pairs)\<close>: a repeated key keeps its first position and takes the last value.\<close>

definition dict_of_pairs :: "(string \<times> pyval) list \<Rightarrow> (string \<times> pyval) list" where
  "dict_of_pairs ps = foldl (\<lambda>d (k, v). AList.update k v d) [] ps"

fun scan_once :: "nat \<Rightarrow> string \<Rightarrow> (pyval \<times> string) option"
  and scan_array :: "nat \<Rightarrow> pyval list \<Rightarrow> string \<Rightarrow> (pyval \<times> string) option"
  and scan_object :: "nat \<Rightarrow> (string \<times> pyval) list \<Rightarrow> string \<Rightarrow> (pyval \<times> string) option"
where
  "scan_once 0 s = None"
| "scan_once (Suc n) [] = None"
| "scan_once (Suc n) (c # cs) =
     (if c = CHR 0x22 then
        (case scanstring cs of None \<Rightarrow> None | Some (str, r) \<Rightarrow> Some (PStr str, r))
      else if c = CHR ''{'' then
        (case skip_ws cs of
           [] \<Rightarrow> None
         | d # r \<Rightarrow> if d = CHR ''}'' then Some (PDict [], r) else scan_object n [] (d # r))
      else if c = CHR ''['' then
        (case skip_ws cs of
           [] \<Rightarrow> None
         | d # r \<Rightarrow> if d = CHR '']'' then Some (PList [], r) else scan_array n [] (d # r))
      else if c = CHR ''n'' then
        (case match_literal ''null'' (c # cs) of None \<Rightarrow> None | Some r \<Rightarrow> Some (PNone, r))
      else if c = CHR ''t'' then
        (case match_literal ''true'' (c # cs) of None \<Rightarrow> None | Some r \<Rightarrow> Some (PBool True, r))
      else if c = CHR ''f'' then
        (case match_literal ''false'' (c # cs) of None \<Rightarrow> None | Some r \<Rightarrow> Some (PBool False, r))
      else scan_number (c # cs))"
| "scan_array 0 acc s = None"
| "scan_array (Suc n) acc s =
     (case scan_once n s of
        None \<Rightarrow> None
      | Some (v, r) \<Rightarrow>
          (case skip_ws r of
             [] \<Rightarrow> None
           | d # r' \<Rightarrow>
               if d = CHR '']'' then Some (PList (acc @ [v]), r')
               else if d = CHR '','' then scan_array n (acc @ [v]) (skip_ws r')
               else None))"
| "scan_object 0 acc s = None"
| "scan_object (Suc n) acc [] = None"
| "scan_object (Suc n) acc (q # s) =
     (if q \<noteq> CHR 0x22 then None
      else case scanstring s of
        None \<Rightarrow> None
      | Some (k, r1) \<Rightarrow>
          (case skip_ws r1 of
             [] \<Rightarrow> None
           | c # r2 \<Rightarrow>
               if c \<noteq> CHR '':'' then None
               else (case scan_once n (skip_ws r2) of
                  None \<Rightarrow> None
                | Some (v, r3) \<Rightarrow>
                    (case skip_ws r3 of
                       [] \<Rightarrow> None
                     | d # r4 \<Rightarrow>
                         if d = CHR ''}'' then Some (PDict (dict_of_pairs (acc @ [(k, v)])), r4)
                         else if d = CHR '','' then scan_object n (acc @ [(k, v)]) (skip_ws r4)
                         else None))))"

definition json_loads :: "string \<Rightarrow> pyval option" where
  "json_loads s =
     (case scan_once (length s) (skip_ws s) of
        None \<Rightarrow> None
      | Some (v, r) \<Rightarrow> if skip_ws r = [] then Some v else None)"

section \<open>Reading a timestamp back\<close>

text \<open>
  The calendar constraints of a \<^verbatim>\<open>datetime\<close> object, and a reader for the extended
  ISO 8601 form \<^verbatim>\<open>YYYY-MM-DDTHH:MM:SS\<close> with an optional fraction of six digits.
\<close>

definition is_leap :: "nat \<Rightarrow> bool" where
  "is_leap y \<longleftrightarrow> y mod 4 = 0 \<and> (y mod 100 \<noteq> 0 \<or> y mod 400 = 0)"

definition days_in_month :: "nat \<Rightarrow> nat \<Rightarrow> nat" where
  "days_in_month y m =
     (if m = 2 then (if is_leap y then 29 else 28)
      else if m = 4 \<or> m = 6 \<or> m = 9 \<or> m = 11 then 30
      else 31)"

definition valid_datetime :: "datetime \<Rightarrow> bool" where
  "valid_datetime d \<longleftrightarrow>
     1 \<le> year d \<and> year d \<le> 9999 \<and> 1 \<le> month d \<and> month d \<le> 12 \<and>
     1 \<le> day d \<and> day d \<le> days_in_month (year d) (month d) \<and>
     hour d < 24 \<and> minute d < 60 \<and> second d < 60 \<and> microsecond d < 1000000"

definition num_field :: "string \<Rightarrow> nat option" where
  "num_field s = (if s \<noteq> [] \<and> list_all is_digit s then Some (digits_val s) else None)"

definition parse_iso8601 :: "string \<Rightarrow> datetime option" where
  "parse_iso8601 s =
     (if (length s = 19 \<or> (length s = 26 \<and> s ! 19 = CHR ''.'')) \<and>
         s ! 4 = CHR ''-'' \<and> s ! 7 = CHR ''-'' \<and> s ! 10 = CHR ''T'' \<and>
         s ! 13 = CHR '':'' \<and> s ! 16 = CHR '':''
      then
        (case (num_field (take 4 s), num_field (take 2 (drop 5 s)),
               num_field (take 2 (drop 8 s)), num_field (take 2 (drop 11 s)),
               num_field (take 2 (drop 14 s)), num_field (take 2 (drop 17 s)),
               (if length s = 19 then Some 0 else num_field (drop 20 s))) of
           (Some y, Some mo, Some d, Some h, Some mi, Some sec, Some us) \<Rightarrow>
             (let dt = \<lparr>year = y, month = mo, day = d, hour = h, minute = mi,
                        second = sec, microsecond = us\<rparr>
              in if valid_datetime dt then Some dt else None)
         | _ \<Rightarrow> None)
      else None)"

section \<open>Predicates and sample inputs used in the statements\<close>

text \<open>The shape of the report: strings, lists of strings, and dictionaries of such values.\<close>

fun report_shape :: "pyval \<Rightarrow> bool"
  and report_shape_members :: "(string \<times> pyval) list \<Rightarrow> bool"
where
  "report_shape (PStr s) = True"
| "report_shape (PList xs) = list_all is_str xs"
| "report_shape (PDict kvs) = report_shape_members kvs"
| "report_shape PNone = False"
| "report_shape (PBool b) = False"
| "report_shape (PInt i) = False"
| "report_shape (PDatetime d) = False"
| "report_shape_members [] = True"
| "report_shape_members ((k, v) # kvs) = (report_shape v \<and> report_shape_members kvs)"

fun nesting_depth :: "pyval \<Rightarrow> nat"
  and nesting_depth_items :: "pyval list \<Rightarrow> nat"
  and nesting_depth_members :: "(string \<times> pyval) list \<Rightarrow> nat"
where
  "nesting_depth (PList xs) = Suc (nesting_depth_items xs)"
| "nesting_depth (PDict kvs) = Suc (nesting_depth_members kvs)"
| "nesting_depth PNone = 0"
| "nesting_depth (PBool b) = 0"
| "nesting_depth (PInt i) = 0"
| "nesting_depth (PStr s) = 0"
| "nesting_depth (PDatetime d) = 0"
| "nesting_depth_items [] = 0"
| "nesting_depth_items (x # xs) = max (nesting_depth x) (nesting_depth_items xs)"
| "nesting_depth_members [] = 0"
| "nesting_depth_members ((k, v) # kvs) = max (nesting_depth v) (nesting_depth_members kvs)"

fun nonempty_str_list :: "pyval \<Rightarrow> bool" where
  "nonempty_str_list (PList xs) = (xs \<noteq> [] \<and> list_all is_str xs)"
| "nonempty_str_list _ = False"

text \<open>
  A Python dictionary cannot hold a key twice; an association list standing for one
  has distinct keys at every level.
\<close>

fun distinct_keys :: "pyval \<Rightarrow> bool"
  and distinct_keys_items :: "pyval list \<Rightarrow> bool"
  and distinct_keys_members :: "(string \<times> pyval) list \<Rightarrow> bool"
where
  "distinct_keys (PList xs) = distinct_keys_items xs"
| "distinct_keys (PDict kvs) = (distinct (map fst kvs) \<and> distinct_keys_members kvs)"
| "distinct_keys PNone = True"
| "distinct_keys (PBool b) = True"
| "distinct_keys (PInt i) = True"
| "distinct_keys (PStr s) = True"
| "distinct_keys (PDatetime d) = True"
| "distinct_keys_items [] = True"
| "distinct_keys_items (x # xs) = (distinct_keys x \<and> distinct_keys_items xs)"
| "distinct_keys_members [] = True"
| "distinct_keys_members ((k, v) # kvs) = (distinct_keys v \<and> distinct_keys_members kvs)"

text \<open>The fuel the scanner uses on the rendering of a value.\<close>

fun fuel :: "pyval \<Rightarrow> nat"
  and fuel_items :: "pyval list \<Rightarrow> nat"
  and fuel_members :: "(string \<times> pyval) list \<Rightarrow> nat"
where
  "fuel (PList xs) = Suc (fuel_items xs)"
| "fuel (PDict kvs) = Suc (fuel_members kvs)"
| "fuel PNone = 1"
| "fuel (PBool b) = 1"
| "fuel (PInt i) = 1"
| "fuel (PStr s) = 1"
| "fuel (PDatetime d) = 1"
| "fuel_items [] = 0"
| "fuel_items (x # xs) = Suc (max (fuel x) (fuel_items xs))"
| "fuel_members [] = 0"
| "fuel_members ((k, v) # kvs) = Suc (max (fuel v) (fuel_members kvs))"

text \<open>What may follow a number in a document: anything but a digit, a point or an exponent.\<close>

fun delimited :: "string \<Rightarrow> bool" where
  "delimited [] = True"
| "delimited (c # cs) = (\<not> is_digit c \<and> c \<noteq> CHR ''.'' \<and> c \<noteq> CHR ''e'' \<and> c \<noteq> CHR ''E'')"

text \<open>The first character of a rendered value.\<close>

definition value_start :: "char \<Rightarrow> bool" where
  "value_start c \<longleftrightarrow> is_digit c \<or> c \<in> set [CHR 0x22, CHR ''{'', CHR ''['', CHR ''n'', CHR ''t'', CHR ''f'', CHR ''-'']"

text \<open>The characters of a timestamp; none of them is escaped in a JSON string.\<close>

definition plain_char :: "char \<Rightarrow> bool" where
  "plain_char c \<longleftrightarrow> c \<in> set ''0123456789-:.T''"

text \<open>
  The text before and after the timestamp in the program's output, as the encoder
  lays it out with an indent of two.
\<close>

definition expected_head :: string where
  \<open>expected_head =
     ''{\<newline>'' @
     ''  "project_name": "Caesar Token DEX/Wallet/App Development",\<newline>'' @
     ''  "project_path": "/home/persist/repos/work/vazio/caesar",\<newline>'' @
     ''  "current_phase": "Assessment & Planning",\<newline>'' @
     ''  "phase_status": "INITIALIZING",\<newline>'' @
     ''  "last_updated": "''\<close>

definition expected_tail :: string where
  \<open>expected_tail =
     ''",\<newline>'' @
     ''  "completed_infrastructure": {\<newline>'' @
     ''    "phase_3_status": "COMPLETED",\<newline>'' @
     ''    "smart_contracts": {\<newline>'' @
     ''      "dex_factory": "0xAe0DfF19f44D3544139d900a3f9f6c03C6764538",\<newline>'' @
     ''      "caesar_token": "0x6299744254422aadb6a57183f47eaae1678cf86cc58a0c78dfc4fd2caa3ba2a4",\<newline>'' @
     ''      "network": "Sepolia Testnet"\<newline>'' @
     ''    },\<newline>'' @
     ''    "frontend_applications": {\<newline>'' @
     ''      "dex_interface": "React/TypeScript - BUILT",\<newline>'' @
     ''      "cross_chain_bridge": "LayerZero V2 - BUILT",\<newline>'' @
     ''      "analytics_dashboard": "Real-time charts - BUILT",\<newline>'' @
     ''      "wallet_integration": "RainbowKit multi-chain - BUILT"\<newline>'' @
     ''    }\<newline>'' @
     ''  },\<newline>'' @
     ''  "development_requirements": {\<newline>'' @
     ''    "agora_dex": {\<newline>'' @
     ''      "status": "PARTIALLY_IMPLEMENTED",\<newline>'' @
     ''      "location": "scrolls-app/agora-dex/",\<newline>'' @
     ''      "needs": [\<newline>'' @
     ''        "Enhanced trading features",\<newline>'' @
     ''        "Advanced analytics",\<newline>'' @
     ''        "DAO integration",\<newline>'' @
     ''        "Mobile optimization",\<newline>'' @
     ''        "Production deployment"\<newline>'' @
     ''      ]\<newline>'' @
     ''    },\<newline>'' @
     ''    "satchel_wallet": {\<newline>'' @
     ''      "status": "BASIC_IMPLEMENTATION",\<newline>'' @
     ''      "location": "scrolls-app/satchel-wallet/",\<newline>'' @
     ''      "needs": [\<newline>'' @
     ''        "Hardware wallet support",\<newline>'' @
     ''        "Advanced Caesar optimizations",\<newline>'' @
     ''        "DeFi protocol integrations",\<newline>'' @
     ''        "Portfolio management",\<newline>'' @
     ''        "Security enhancements"\<newline>'' @
     ''      ]\<newline>'' @
     ''    },\<newline>'' @
     ''    "tablets_ui": {\<newline>'' @
     ''      "status": "PARTIAL_ANALYTICS",\<newline>'' @
     ''      "location": "scrolls-app/tablets-ui/",\<newline>'' @
     ''      "needs": [\<newline>'' @
     ''        "Complete portfolio dashboard",\<newline>'' @
     ''        "Advanced token analytics",\<newline>'' @
     ''        "Mining interface",\<newline>'' @
     ''        "Performance monitoring",\<newline>'' @
     ''        "Cross-chain bridge UI enhancement"\<newline>'' @
     ''      ]\<newline>'' @
     ''    }\<newline>'' @
     ''  },\<newline>'' @
     ''  "next_actions": [\<newline>'' @
     ''    "Initialize PDL repository tracking",\<newline>'' @
     ''    "Create comprehensive roadmap for ecosystem expansion",\<newline>'' @
     ''    "Delegate to appropriate specialized agents",\<newline>'' @
     ''    "Set up parallel development workflows",\<newline>'' @
     ''    "Plan integration testing strategy"\<newline>'' @
     ''  ]\<newline>'' @
     ''}''\<close>

text \<open>
  What a text of ASCII characters becomes on the wire: itself under UTF-8, Latin-1 and
  ASCII, two bytes per character under UTF-16.
\<close>

definition is_ascii :: "char \<Rightarrow> bool" where
  "is_ascii c \<longleftrightarrow> (of_char c :: nat) < 128"

fun wire :: "codec \<Rightarrow> string \<Rightarrow> string" where
  "wire UTF16 s = concat (map (\<lambda>c. [c, CHR 0x00]) s)"
| "wire UTF8 s = s"
| "wire LATIN1 s = s"
| "wire ASCII s = s"

fun ascii_compatible :: "codec \<Rightarrow> bool" where
  "ascii_compatible UTF16 = False"
| "ascii_compatible UTF8 = True"
| "ascii_compatible LATIN1 = True"
| "ascii_compatible ASCII = True"

text \<open>
  How the interpreter picks the encoding of standard output when \<^verbatim>\<open>PYTHONIOENCODING\<close>
  names one of the four codecs by these names; about other values nothing is said.
\<close>

definition codec_named :: "string \<Rightarrow> codec option" where
  "codec_named v =
     (if v = ''utf-8'' then Some UTF8
      else if v = ''latin-1'' then Some LATIN1
      else if v = ''ascii'' then Some ASCII
      else if v = ''utf-16'' then Some UTF16
      else None)"

definition stdio_from_environ :: "world \<Rightarrow> bool" where
  "stdio_from_environ w =
     (case map_of (environ w) ''PYTHONIOENCODING'' of
        None \<Rightarrow> True
      | Some v \<Rightarrow>
          (case codec_named v of
             None \<Rightarrow> True
           | Some enc \<Rightarrow> (case stdout w of None \<Rightarrow> True | Some st \<Rightarrow> encoding st = enc)))"

text \<open>Sample clock readings, streams and worlds for the statements about concrete inputs.\<close>

definition example_time :: datetime where
  "example_time =
     \<lparr>year = 2026, month = 11, day = 5, hour = 9, minute = 7, second = 3,
      microsecond = 120045\<rparr>"

definition later_time :: datetime where
  "later_time =
     \<lparr>year = 2027, month = 2, day = 28, hour = 23, minute = 59, second = 59,
      microsecond = 0\<rparr>"

text \<open>A pipe that is read, with the default encoding.\<close>

definition pipe_stream :: stream where
  "pipe_stream =
     \<lparr>encoding = UTF8, start_of_stream = False, write_through = False, pending = [],
      accepts = True, written = []\<rparr>"

definition example_world :: world where
  "example_world =
     \<lparr>argv = [''mcp_pdl_initialization.py''], environ = [], clock = (\<lambda>n. example_time),
      clock_reads = 0, stdout = Some pipe_stream\<rparr>"

text \<open>Another command line, environment and clock history; the same reading and stream.\<close>

definition other_world :: world where
  "other_world =
     \<lparr>argv = [''mcp_pdl_initialization.py'', ''--verbose''],
      environ = [(''HOME'', ''/root''), (''TZ'', ''UTC'')],
      clock = (\<lambda>n. if n = 3 then example_time else later_time),
      clock_reads = 3, stdout = Some pipe_stream\<rparr>"

definition later_world :: world where
  "later_world =
     \<lparr>argv = [''mcp_pdl_initialization.py''], environ = [], clock = (\<lambda>n. later_time),
      clock_reads = 0, stdout = Some pipe_stream\<rparr>"

text \<open>The run \<^verbatim>\<open>PYTHONIOENCODING=utf-16 python3 mcp_pdl_initialization.py | cat\<close>.\<close>

definition utf16_world :: world where
  "utf16_world =
     \<lparr>argv = [''mcp_pdl_initialization.py''], environ = [(''PYTHONIOENCODING'', ''utf-16'')],
      clock = (\<lambda>n. example_time), clock_reads = 0,
      stdout = Some (pipe_stream\<lparr>encoding := UTF16\<rparr>)\<rparr>"

text \<open>The run \<^verbatim>\<open>python3 mcp_pdl_initialization.py > /dev/full\<close>.\<close>

definition full_world :: world where
  "full_world =
     \<lparr>argv = [''mcp_pdl_initialization.py''], environ = [], clock = (\<lambda>n. example_time),
      clock_reads = 0, stdout = Some (pipe_stream\<lparr>accepts := False\<rparr>)\<rparr>"

section \<open>Lemmas about the decoder\<close>

subsection \<open>Digits\<close>

lemma below_10_cases: "n < 10 \<Longrightarrow> n \<in> {0, 1, 2, 3, 4, 5, 6, 7, 8, 9::nat}"
  unfolding insert_iff empty_iff by arith

lemma below_16_cases:
  "n < 16 \<Longrightarrow> n \<in> {0, 1, 2, 3, 4, 5, 6, 7, 8, 9, 10, 11, 12, 13, 14, 15::nat}"
  unfolding insert_iff empty_iff by arith

lemma digit_char_is_digit: "n < 10 \<Longrightarrow> is_digit (digit_char n)"
  by (drule below_10_cases) (auto simp: digit_char_def is_digit_def)

lemma digit_val_digit_char: "n < 10 \<Longrightarrow> digit_val (digit_char n) = n"
  by (drule below_10_cases) (auto simp: digit_char_def digit_val_def)

lemma digit_char_zero: "n < 10 \<Longrightarrow> 0 < n \<Longrightarrow> digit_char n \<noteq> CHR ''0''"
  by (drule below_10_cases) (auto simp: digit_char_def)

lemma hex_val_hex_char:
  assumes "n < 16"
  shows "hex_val (hex_char n) = Some n"
proof -
  have "\<forall>n \<in> {0, 1, 2, 3, 4, 5, 6, 7, 8, 9, 10, 11, 12, 13, 14, 15::nat}.
          hex_val (hex_char n) = Some n"
    by (simp add: hex_char_def hex_val_def is_digit_def digit_val_def)
  with below_16_cases [OF assms] show ?thesis by blast
qed

lemma dec_digits: "list_all is_digit (dec n)"
proof (induction n rule: dec.induct)
  case (1 n)
  show ?case
  proof (cases "n < 10")
    case True
    then show ?thesis using digit_char_is_digit [of n] by (subst dec.simps) simp
  next
    case False
    have "n mod 10 < 10" by simp
    then have "is_digit (digit_char (n mod 10))" by (rule digit_char_is_digit)
    with False 1 show ?thesis by (subst dec.simps) simp
  qed
qed

lemma dec_nonempty: "dec n \<noteq> []"
  by (subst dec.simps) simp

lemma dec_zero: "dec 0 = ''0''"
  by (subst dec.simps) (simp add: digit_char_def)

lemma digits_val_snoc: "digits_val (ds @ [c]) = 10 * digits_val ds + digit_val c"
  by (simp add: digits_val_def)

lemma digits_val_dec: "digits_val (dec n) = n"
proof (induction n rule: dec.induct)
  case (1 n)
  show ?case
  proof (cases "n < 10")
    case True
    then show ?thesis
      by (subst dec.simps) (simp add: digits_val_def digit_val_digit_char)
  next
    case False
    then have "digits_val (dec n) = 10 * digits_val (dec (n div 10)) + digit_val (digit_char (n mod 10))"
      by (subst dec.simps) (simp add: digits_val_snoc)
    also have "\<dots> = 10 * (n div 10) + n mod 10"
      using 1 False by (simp add: digit_val_digit_char)
    finally show ?thesis by simp
  qed
qed

lemma dec_head: "0 < n \<Longrightarrow> hd (dec n) \<noteq> CHR ''0''"
proof (induction n rule: dec.induct)
  case (1 n)
  show ?case
  proof (cases "n < 10")
    case True
    with 1(2) show ?thesis
      by (subst dec.simps) (simp add: digit_char_zero)
  next
    case False
    then have "0 < n div 10" by simp
    with 1(1) False have "hd (dec (n div 10)) \<noteq> CHR ''0''" by simp
    with False show ?thesis
      by (subst dec.simps) (simp add: dec_nonempty)
  qed
qed

subsection \<open>Strings\<close>

lemma decode_u_escape:
  assumes "n < 256"
  shows "decode_hex4 (hex_char (n div 4096 mod 16)) (hex_char (n div 256 mod 16))
           (hex_char (n div 16 mod 16)) (hex_char (n mod 16)) = Some (char_of n)"
proof -
  from assms have z: "n div 4096 mod 16 = 0" "n div 256 mod 16 = 0" by simp_all
  from assms have m: "n div 16 mod 16 = n div 16" by simp
  have "n div 16 * 16 + n mod 16 = n" by simp
  then show ?thesis
    using assms by (simp add: decode_hex4_def hex_val_hex_char z m)
qed

lemma of_char_below_256: "(of_char c :: nat) < 256"
  by simp

lemma scanstring_escape_char:
  "scanstring (escape_char c @ s) = cons_result c (scanstring s)"
proof -
  have u: "scanstring (u_escape (of_char c) @ s) = cons_result c (scanstring s)"
    using decode_u_escape [OF of_char_below_256, of c]
    by (simp add: u_escape_def)
  show ?thesis
    by (simp add: escape_char_def u unescape_def)
qed

lemma scanstring_encode:
  "scanstring (concat (map escape_char k) @ CHR 0x22 # rest) = Some (k, rest)"
  by (induction k) (simp_all add: scanstring_escape_char cons_result_def)

subsection \<open>Numbers\<close>

lemma takeWhile_digits:
  "list_all is_digit ds \<Longrightarrow> delimited rest \<Longrightarrow> takeWhile is_digit (ds @ rest) = ds"
  by (cases rest) (simp_all add: list_all_iff)

lemma dropWhile_digits:
  "list_all is_digit ds \<Longrightarrow> delimited rest \<Longrightarrow> dropWhile is_digit (ds @ rest) = rest"
  by (cases rest) (simp_all add: list_all_iff)

lemma scan_digits_dec:
  assumes "delimited rest"
  shows "scan_digits (dec n @ rest) = Some (n, rest)"
proof (cases "n = 0")
  case True
  then show ?thesis by (simp add: dec_zero scan_digits_def)
next
  case False
  obtain c cs where d: "dec n = c # cs"
    using dec_nonempty [of n] by (cases "dec n") auto
  from dec_digits [of n] d have c: "is_digit c" and cs: "list_all is_digit cs" by simp_all
  from False dec_head [of n] d have nz: "c \<noteq> CHR ''0''" by simp
  have "digits_val (c # cs) = n" using digits_val_dec [of n] d by simp
  then show ?thesis
    using c nz by (simp add: d scan_digits_def takeWhile_digits [OF cs assms] dropWhile_digits [OF cs assms])
qed

lemma number_tail:
  assumes "delimited rest"
  shows "(case rest of [] \<Rightarrow> Some (v, rest)
          | c # cs \<Rightarrow> if c = CHR ''.'' \<or> c = CHR ''e'' \<or> c = CHR ''E'' then None
                      else Some (v, rest)) = Some (v, rest)"
  using assms by (cases rest) simp_all

lemma scan_number_dec:
  assumes "delimited rest"
  shows "scan_number (dec n @ rest) = Some (PInt (int n), rest)"
proof -
  obtain c cs where d: "dec n = c # cs"
    using dec_nonempty [of n] by (cases "dec n") auto
  from dec_digits [of n] d have "is_digit c" by simp
  then have c: "c \<noteq> CHR ''-''" by (auto simp: is_digit_def)
  have sd: "scan_digits (c # cs @ rest) = Some (n, rest)"
    using scan_digits_dec [OF assms, of n] by (simp add: d)
  show ?thesis
    using c by (simp add: scan_number_def d sd number_tail [OF assms])
qed

lemma scan_number_intstr:
  assumes "delimited rest"
  shows "scan_number (intstr i @ rest) = Some (PInt i, rest)"
proof (cases "i < 0")
  case True
  then show ?thesis
    by (simp add: scan_number_def intstr_def scan_digits_dec [OF assms] number_tail [OF assms])
next
  case False
  then show ?thesis
    using scan_number_dec [OF assms, of "nat i"] by (simp add: intstr_def)
qed

subsection \<open>Whitespace and first characters\<close>

lemma skip_ws_newline_indent: "skip_ws (newline_indent ind l @ s) = skip_ws s"
proof -
  have "skip_ws (replicate k (CHR '' '') @ s) = skip_ws s" for k
    by (induction k) (simp_all add: is_ws_def)
  then show ?thesis
    by (simp add: newline_indent_def is_ws_def)
qed

lemma value_start_not_ws: "value_start c \<Longrightarrow> \<not> is_ws c"
proof -
  have "\<forall>c \<in> set (''0123456789'' @ [CHR 0x22, CHR ''{'', CHR ''['', CHR ''n'', CHR ''t'', CHR ''f'', CHR ''-'']). \<not> is_ws c"
    by (simp add: is_ws_def)
  then show "value_start c \<Longrightarrow> \<not> is_ws c"
    unfolding value_start_def is_digit_def by auto
qed

lemma value_start_not_close: "value_start c \<Longrightarrow> c \<noteq> CHR '']'' \<and> c \<noteq> CHR ''}''"
proof -
  have "\<forall>c \<in> set (''0123456789'' @ [CHR 0x22, CHR ''{'', CHR ''['', CHR ''n'', CHR ''t'', CHR ''f'', CHR ''-'']). c \<noteq> CHR '']'' \<and> c \<noteq> CHR ''}''"
    by simp
  then show "value_start c \<Longrightarrow> c \<noteq> CHR '']'' \<and> c \<noteq> CHR ''}''"
    unfolding value_start_def is_digit_def by auto
qed

lemma intstr_start: "\<exists>c cs. intstr i = c # cs \<and> value_start c"
proof -
  obtain c cs where d: "dec (nat i) = c # cs"
    using dec_nonempty [of "nat i"] by (cases "dec (nat i)") auto
  from dec_digits [of "nat i"] d have "is_digit c" by simp
  then show ?thesis
    by (simp add: intstr_def d value_start_def)
qed

lemma iterencode_start:
  "iterencode ind lvl v = Inr s \<Longrightarrow> \<exists>c cs. s = c # cs \<and> value_start c"
proof (cases v)
  case (PInt i)
  assume "iterencode ind lvl v = Inr s"
  with PInt intstr_start [of i] show ?thesis by auto
qed (auto simp: value_start_def encode_basestring_ascii_def split: if_splits sum.splits)

lemma iterencode_items_start:
  "iterencode_items ind lvl xs = Inr s \<Longrightarrow> xs \<noteq> [] \<Longrightarrow> \<exists>c cs. s = c # cs \<and> value_start c"
proof (cases xs)
  case Nil
  assume "xs \<noteq> []"
  with Nil show ?thesis by simp
next
  case (Cons x ys)
  assume e: "iterencode_items ind lvl xs = Inr s"
  then obtain chunk where c: "iterencode ind lvl x = Inr chunk"
    using Cons by (auto split: sum.splits)
  from iterencode_start [OF c] obtain a as where "chunk = a # as" "value_start a" by blast
  with e c Cons show ?thesis
    by (auto split: sum.splits if_splits)
qed

lemma iterencode_members_start:
  "iterencode_members ind lvl kvs = Inr s \<Longrightarrow> kvs \<noteq> [] \<Longrightarrow> \<exists>cs. s = CHR 0x22 # cs"
  by (cases kvs) (auto simp: encode_basestring_ascii_def split: sum.splits if_splits)

subsection \<open>Dictionaries built from pairs\<close>

lemma update_fresh: "k \<notin> fst ` set al \<Longrightarrow> AList.update k v al = al @ [(k, v)]"
  by (induction al) auto

lemma foldl_update_distinct:
  "distinct (map fst (acc @ ps)) \<Longrightarrow>
     foldl (\<lambda>d (k, v). AList.update k v d) acc ps = acc @ ps"
proof (induction ps arbitrary: acc)
  case Nil
  then show ?case by simp
next
  case (Cons p ps)
  obtain k v where p: "p = (k, v)" by (cases p)
  from Cons.prems have fresh: "k \<notin> fst ` set acc" by (auto simp: p)
  from Cons.prems have "distinct (map fst ((acc @ [(k, v)]) @ ps))" by (auto simp: p)
  from Cons.IH [OF this] show ?case
    by (simp add: p update_fresh [OF fresh])
qed

lemma dict_of_pairs_distinct: "distinct (map fst ps) \<Longrightarrow> dict_of_pairs ps = ps"
  using foldl_update_distinct [of "[]" ps] by (simp add: dict_of_pairs_def)

subsection \<open>Decoding what the encoder wrote\<close>

lemma scan_once_literals:
  "delimited rest \<Longrightarrow> scan_once (Suc n) (''null'' @ rest) = Some (PNone, rest)"
  "delimited rest \<Longrightarrow> scan_once (Suc n) (''true'' @ rest) = Some (PBool True, rest)"
  "delimited rest \<Longrightarrow> scan_once (Suc n) (''false'' @ rest) = Some (PBool False, rest)"
  by (simp_all add: match_literal_def)

lemma scan_once_int:
  assumes "delimited rest"
  shows "scan_once (Suc n) (intstr i @ rest) = Some (PInt i, rest)"
proof -
  obtain c cs where d: "intstr i = c # cs" and "c = CHR ''-'' \<or> is_digit c"
  proof (cases "i < 0")
    case True
    then show ?thesis using that by (simp add: intstr_def)
  next
    case False
    obtain a as where a: "dec (nat i) = a # as"
      using dec_nonempty [of "nat i"] by (cases "dec (nat i)") auto
    from dec_digits [of "nat i"] a have "is_digit a" by simp
    with False a show ?thesis using that by (simp add: intstr_def)
  qed
  then have "c \<notin> set [CHR 0x22, CHR ''{'', CHR ''['', CHR ''n'', CHR ''t'', CHR ''f'']"
    by (auto simp: is_digit_def)
  then have "scan_once (Suc n) (c # cs @ rest) = scan_number (c # cs @ rest)"
    by simp
  with scan_number_intstr [OF assms, of i] show ?thesis
    by (simp add: d)
qed

lemma scan_once_str:
  "scan_once (Suc n) (encode_basestring_ascii s @ rest) = Some (PStr s, rest)"
  by (simp add: encode_basestring_ascii_def scanstring_encode)

lemma delimited_separator: "delimited (separator ind l @ s)"
  by (simp add: separator_def is_digit_def)

lemma delimited_newline_indent: "delimited (newline_indent ind l @ s)"
  by (simp add: newline_indent_def is_digit_def)

lemma skip_ws_separator: "skip_ws (separator ind l @ s) = CHR '','' # newline_indent ind l @ s"
  by (simp add: separator_def is_ws_def)

lemma roundtrip_aux:
  "(\<forall>s n rest. iterencode ind lvl v = Inr s \<longrightarrow> distinct_keys v \<longrightarrow> fuel v \<le> n \<longrightarrow>
      delimited rest \<longrightarrow> scan_once n (s @ rest) = Some (v, rest))"
  "(\<forall>s n acc l rest. iterencode_items ind lvl xs = Inr s \<longrightarrow> xs \<noteq> [] \<longrightarrow>
      distinct_keys_items xs \<longrightarrow> fuel_items xs \<le> n \<longrightarrow>
      scan_array n acc (s @ newline_indent ind l @ CHR '']'' # rest) = Some (PList (acc @ xs), rest))"
  "(\<forall>s n acc l rest. iterencode_members ind lvl kvs = Inr s \<longrightarrow> kvs \<noteq> [] \<longrightarrow>
      distinct_keys_members kvs \<longrightarrow> fuel_members kvs \<le> n \<longrightarrow>
      scan_object n acc (s @ newline_indent ind l @ CHR ''}'' # rest)
        = Some (PDict (dict_of_pairs (acc @ kvs)), rest))"
proof (induction ind lvl v and ind lvl xs and ind lvl kvs
    rule: iterencode_iterencode_items_iterencode_members.induct)
  case (1 ind lvl)
  show ?case
  proof (intro allI impI)
    fix s n rest
    assume "iterencode ind lvl PNone = Inr s" "fuel PNone \<le> n" "delimited rest"
    then show "scan_once n (s @ rest) = Some (PNone, rest)"
      using scan_once_literals(1) [of rest "n - 1"] by (cases n) auto
  qed
next
  case (2 ind lvl b)
  show ?case
  proof (intro allI impI)
    fix s n rest
    assume "iterencode ind lvl (PBool b) = Inr s" "fuel (PBool b) \<le> n" "delimited rest"
    then show "scan_once n (s @ rest) = Some (PBool b, rest)"
      using scan_once_literals(2,3) [of rest "n - 1"] by (cases n; cases b) auto
  qed
next
  case (3 ind lvl i)
  show ?case
  proof (intro allI impI)
    fix s n rest
    assume "iterencode ind lvl (PInt i) = Inr s" "fuel (PInt i) \<le> n" "delimited rest"
    then show "scan_once n (s @ rest) = Some (PInt i, rest)"
      using scan_once_int [of rest "n - 1" i] by (cases n) auto
  qed
next
  case (4 ind lvl str)
  show ?case
  proof (intro allI impI)
    fix s n rest
    assume "iterencode ind lvl (PStr str) = Inr s" "fuel (PStr str) \<le> n"
    then show "scan_once n (s @ rest) = Some (PStr str, rest)"
      using scan_once_str [of "n - 1" str rest] by (cases n) auto
  qed
next
  case (5 ind lvl xs)
  show ?case
  proof (intro allI impI)
    fix s n rest
    assume enc: "iterencode ind lvl (PList xs) = Inr s"
      and dk: "distinct_keys (PList xs)"
      and fu: "fuel (PList xs) \<le> n"
    from fu obtain m where n: "n = Suc m" and fxs: "fuel_items xs \<le> m"
      by (cases n) auto
    show "scan_once n (s @ rest) = Some (PList xs, rest)"
    proof (cases "xs = []")
      case True
      with enc have "s = ''[]''" by auto
      then show ?thesis
        by (simp add: n True is_ws_def)
    next
      case False
      with enc obtain body where b: "iterencode_items ind (Suc lvl) xs = Inr body"
        and s: "s = ''['' @ newline_indent ind (Suc lvl) @ body @ newline_indent ind lvl @ '']''"
        by (auto split: sum.splits)
      from iterencode_items_start [OF b False] obtain a as
        where a: "body = a # as" "value_start a" by blast
      let ?tail = "newline_indent ind lvl @ CHR '']'' # rest"
      have 1: "skip_ws (newline_indent ind (Suc lvl) @ body @ ?tail) = a # as @ ?tail"
        by (simp add: skip_ws_newline_indent a value_start_not_ws)
      have 2: "a \<noteq> CHR '']''"
        using a(2) value_start_not_close by blast
      have "scan_array m [] (body @ ?tail) = Some (PList ([] @ xs), rest)"
        using "5.IH" False b dk fxs by simp
      then have 3: "scan_array m [] (a # as @ ?tail) = Some (PList xs, rest)"
        by (simp add: a)
      show ?thesis
        by (simp add: n s 1 2 3)
    qed
  qed
next
  case (6 ind lvl kvs)
  show ?case
  proof (intro allI impI)
    fix s n rest
    assume enc: "iterencode ind lvl (PDict kvs) = Inr s"
      and dk: "distinct_keys (PDict kvs)"
      and fu: "fuel (PDict kvs) \<le> n"
    from fu obtain m where n: "n = Suc m" and fkvs: "fuel_members kvs \<le> m"
      by (cases n) auto
    from dk have dist: "distinct (map fst kvs)" and dm: "distinct_keys_members kvs"
      by simp_all
    show "scan_once n (s @ rest) = Some (PDict kvs, rest)"
    proof (cases "kvs = []")
      case True
      with enc have "s = ''{}''" by auto
      then show ?thesis
        by (simp add: n True is_ws_def)
    next
      case False
      with enc obtain body where b: "iterencode_members ind (Suc lvl) kvs = Inr body"
        and s: "s = ''{'' @ newline_indent ind (Suc lvl) @ body @ newline_indent ind lvl @ ''}''"
        by (auto split: sum.splits)
      from iterencode_members_start [OF b False] obtain as
        where a: "body = CHR 0x22 # as" by blast
      let ?tail = "newline_indent ind lvl @ CHR ''}'' # rest"
      have 1: "skip_ws (newline_indent ind (Suc lvl) @ body @ ?tail) = CHR 0x22 # as @ ?tail"
        by (simp add: skip_ws_newline_indent a is_ws_def)
      have "scan_object m [] (body @ ?tail) = Some (PDict (dict_of_pairs ([] @ kvs)), rest)"
        using "6.IH" False b dm fkvs by simp
      then have 3: "scan_object m [] (CHR 0x22 # as @ ?tail) = Some (PDict kvs, rest)"
        by (simp add: a dict_of_pairs_distinct [OF dist] del: scan_object.simps)
      show ?thesis
        by (simp add: n s 1 3 del: scan_object.simps)
    qed
  qed
next
  case (7 ind lvl d)
  show ?case by simp
next
  case (8 ind lvl)
  show ?case by simp
next
  case (9 ind lvl x xs)
  show ?case
  proof (intro allI impI)
    fix s n acc l rest
    assume enc: "iterencode_items ind lvl (x # xs) = Inr s"
      and dk: "distinct_keys_items (x # xs)"
      and fu: "fuel_items (x # xs) \<le> n"
    from fu obtain m where n: "n = Suc m" and fx: "fuel x \<le> m" and fxs: "fuel_items xs \<le> m"
      by (cases n) auto
    from enc obtain chunk where c: "iterencode ind lvl x = Inr chunk"
      by (auto split: sum.splits)
    from dk have dx: "distinct_keys x" and dxs: "distinct_keys_items xs"
      by simp_all
    have px: "scan_once m (chunk @ r) = Some (x, r)" if "delimited r" for r
      using "9.IH"(1) c dx fx that by blast
    let ?tail = "newline_indent ind l @ CHR '']'' # rest"
    show "scan_array n acc (s @ ?tail) = Some (PList (acc @ x # xs), rest)"
    proof (cases "xs = []")
      case True
      with enc c have s: "s = chunk" by simp
      have 1: "scan_once m (chunk @ ?tail) = Some (x, ?tail)"
        by (rule px) (rule delimited_newline_indent)
      have 2: "skip_ws ?tail = CHR '']'' # rest"
        by (simp add: skip_ws_newline_indent is_ws_def)
      show ?thesis
        by (simp add: n s True 1 2)
    next
      case False
      with enc c obtain later where lt: "iterencode_items ind lvl xs = Inr later"
        and s: "s = chunk @ separator ind lvl @ later"
        by (auto split: sum.splits)
      from iterencode_items_start [OF lt False] obtain a as
        where a: "later = a # as" "value_start a" by blast
      have 1: "scan_once m (chunk @ separator ind lvl @ later @ ?tail)
                 = Some (x, separator ind lvl @ later @ ?tail)"
        by (rule px) (rule delimited_separator)
      have 2: "skip_ws (separator ind lvl @ later @ ?tail)
                 = CHR '','' # newline_indent ind lvl @ later @ ?tail"
        by (rule skip_ws_separator)
      have 3: "skip_ws (newline_indent ind lvl @ later @ ?tail) = later @ ?tail"
        by (simp add: skip_ws_newline_indent a value_start_not_ws)
      have 4: "scan_array m (acc @ [x]) (later @ ?tail) = Some (PList ((acc @ [x]) @ xs), rest)"
        using "9.IH"(2) c False lt dxs fxs by blast
      show ?thesis
        by (simp add: n s 1 2 3 4)
    qed
  qed
next
  case (10 ind lvl)
  show ?case by simp
next
  case (11 ind lvl k v kvs)
  show ?case
  proof (intro allI impI)
    fix s n acc l rest
    assume enc: "iterencode_members ind lvl ((k, v) # kvs) = Inr s"
      and dk: "distinct_keys_members ((k, v) # kvs)"
      and fu: "fuel_members ((k, v) # kvs) \<le> n"
    from fu obtain m where n: "n = Suc m" and fv: "fuel v \<le> m"
      and fkvs: "fuel_members kvs \<le> m"
      by (cases n) auto
    from enc obtain chunk where c: "iterencode ind lvl v = Inr chunk"
      by (auto split: sum.splits)
    from iterencode_start [OF c] obtain b bs where b: "chunk = b # bs" "value_start b"
      by blast
    from dk have dv: "distinct_keys v" and dkvs: "distinct_keys_members kvs"
      by simp_all
    have pv: "scan_once m (chunk @ r) = Some (v, r)" if "delimited r" for r
      using "11.IH"(1) c dv fv that by blast
    let ?tail = "newline_indent ind l @ CHR ''}'' # rest"
    let ?key = "concat (map escape_char k)"
    have key: "scanstring (?key @ CHR 0x22 # r) = Some (k, r)" for r
      by (rule scanstring_encode)
    have colon: "skip_ws (CHR '':'' # CHR '' '' # r) = CHR '':'' # CHR '' '' # r" for r
      by (simp add: is_ws_def)
    have sp: "is_ws (CHR '' '')"
      by (simp add: is_ws_def)
    have nb: "\<not> is_ws b"
      using b(2) by (rule value_start_not_ws)
    have space: "skip_ws (CHR '' '' # chunk @ r) = chunk @ r" for r
      by (simp add: sp b nb)
    show "scan_object n acc (s @ ?tail) = Some (PDict (dict_of_pairs (acc @ (k, v) # kvs)), rest)"
    proof (cases "kvs = []")
      case True
      with enc c have s: "s = CHR 0x22 # ?key @ CHR 0x22 # CHR '':'' # CHR '' '' # chunk"
        by (simp add: encode_basestring_ascii_def)
      have 1: "scan_once m (chunk @ ?tail) = Some (v, ?tail)"
        by (rule pv) (rule delimited_newline_indent)
      have 2: "skip_ws ?tail = CHR ''}'' # rest"
        by (simp add: skip_ws_newline_indent is_ws_def)
      show ?thesis
        by (simp add: n s True key colon space 1 2 del: skip_ws.simps)
    next
      case False
      with enc c obtain later where lt: "iterencode_members ind lvl kvs = Inr later"
        and s: "s = CHR 0x22 # ?key @ CHR 0x22 # CHR '':'' # CHR '' '' # chunk
                      @ separator ind lvl @ later"
        by (auto simp: encode_basestring_ascii_def split: sum.splits)
      from iterencode_members_start [OF lt False] obtain as
        where a: "later = CHR 0x22 # as" by blast
      have 1: "scan_once m (chunk @ separator ind lvl @ later @ ?tail)
                 = Some (v, separator ind lvl @ later @ ?tail)"
        by (rule pv) (rule delimited_separator)
      have 2: "skip_ws (separator ind lvl @ later @ ?tail)
                 = CHR '','' # newline_indent ind lvl @ later @ ?tail"
        by (rule skip_ws_separator)
      have 3: "skip_ws (newline_indent ind lvl @ later @ ?tail) = later @ ?tail"
        by (simp add: skip_ws_newline_indent a is_ws_def)
      have 4: "scan_object m (acc @ [(k, v)]) (later @ ?tail)
                 = Some (PDict (dict_of_pairs ((acc @ [(k, v)]) @ kvs)), rest)"
        using "11.IH"(2) c False lt dkvs fkvs by blast
      show ?thesis
        by (simp add: n s key colon space 1 2 3 4 del: skip_ws.simps)
    qed
  qed
qed

lemma length_newline_indent: "0 < length (newline_indent ind l)"
  by (simp add: newline_indent_def)

lemma length_separator: "2 \<le> length (separator ind l)"
  by (simp add: separator_def newline_indent_def)

lemma fuel_bound:
  "(\<forall>s. iterencode ind lvl v = Inr s \<longrightarrow> fuel v \<le> length s)"
  "(\<forall>s. iterencode_items ind lvl xs = Inr s \<longrightarrow> fuel_items xs \<le> Suc (length s))"
  "(\<forall>s. iterencode_members ind lvl kvs = Inr s \<longrightarrow> fuel_members kvs \<le> Suc (length s))"
proof (induction ind lvl v and ind lvl xs and ind lvl kvs
    rule: iterencode_iterencode_items_iterencode_members.induct)
  case (1 ind lvl)
  show ?case by auto
next
  case (2 ind lvl b)
  show ?case by auto
next
  case (3 ind lvl i)
  show ?case
    using intstr_start [of i] by auto
next
  case (4 ind lvl str)
  show ?case by (auto simp: encode_basestring_ascii_def)
next
  case (5 ind lvl xs)
  show ?case
  proof (intro allI impI)
    fix s
    assume enc: "iterencode ind lvl (PList xs) = Inr s"
    show "fuel (PList xs) \<le> length s"
    proof (cases "xs = []")
      case True
      with enc show ?thesis by auto
    next
      case False
      with enc obtain body where b: "iterencode_items ind (Suc lvl) xs = Inr body"
        and s: "s = ''['' @ newline_indent ind (Suc lvl) @ body @ newline_indent ind lvl @ '']''"
        by (auto split: sum.splits)
      from "5.IH" False b have "fuel_items xs \<le> Suc (length body)" by simp
      then show ?thesis
        using length_newline_indent [of ind lvl] length_newline_indent [of ind "Suc lvl"]
        by (simp add: s)
    qed
  qed
next
  case (6 ind lvl kvs)
  show ?case
  proof (intro allI impI)
    fix s
    assume enc: "iterencode ind lvl (PDict kvs) = Inr s"
    show "fuel (PDict kvs) \<le> length s"
    proof (cases "kvs = []")
      case True
      with enc show ?thesis by auto
    next
      case False
      with enc obtain body where b: "iterencode_members ind (Suc lvl) kvs = Inr body"
        and s: "s = ''{'' @ newline_indent ind (Suc lvl) @ body @ newline_indent ind lvl @ ''}''"
        by (auto split: sum.splits)
      from "6.IH" False b have "fuel_members kvs \<le> Suc (length body)" by simp
      then show ?thesis
        using length_newline_indent [of ind lvl] length_newline_indent [of ind "Suc lvl"]
        by (simp add: s)
    qed
  qed
next
  case (7 ind lvl d)
  show ?case by simp
next
  case (8 ind lvl)
  show ?case by simp
next
  case (9 ind lvl x xs)
  show ?case
  proof (intro allI impI)
    fix s
    assume enc: "iterencode_items ind lvl (x # xs) = Inr s"
    then obtain chunk where c: "iterencode ind lvl x = Inr chunk"
      by (auto split: sum.splits)
    from "9.IH"(1) c have fx: "fuel x \<le> length chunk" by simp
    show "fuel_items (x # xs) \<le> Suc (length s)"
    proof (cases "xs = []")
      case True
      with enc c fx show ?thesis by auto
    next
      case False
      with enc c obtain later where lt: "iterencode_items ind lvl xs = Inr later"
        and s: "s = chunk @ separator ind lvl @ later"
        by (auto split: sum.splits)
      from "9.IH"(2) c False lt have "fuel_items xs \<le> Suc (length later)" by blast
      with fx show ?thesis
        using length_separator [of ind lvl] by (simp add: s)
    qed
  qed
next
  case (10 ind lvl)
  show ?case by simp
next
  case (11 ind lvl k v kvs)
  show ?case
  proof (intro allI impI)
    fix s
    assume enc: "iterencode_members ind lvl ((k, v) # kvs) = Inr s"
    then obtain chunk where c: "iterencode ind lvl v = Inr chunk"
      by (auto split: sum.splits)
    from "11.IH"(1) c have fv: "fuel v \<le> length chunk" by simp
    show "fuel_members ((k, v) # kvs) \<le> Suc (length s)"
    proof (cases "kvs = []")
      case True
      with enc c fv show ?thesis by auto
    next
      case False
      with enc c obtain later where lt: "iterencode_members ind lvl kvs = Inr later"
        and s: "s = encode_basestring_ascii k @ '': '' @ chunk @ separator ind lvl @ later"
        by (auto split: sum.splits)
      from "11.IH"(2) c False lt have "fuel_members kvs \<le> Suc (length later)" by blast
      with fv show ?thesis
        using length_separator [of ind lvl] by (simp add: s)
    qed
  qed
qed

lemma skip_ws_all: "list_all is_ws ws \<Longrightarrow> skip_ws ws = []"
  by (induction ws) simp_all

lemma delimited_ws: "list_all is_ws ws \<Longrightarrow> delimited ws"
proof (cases ws)
  case Nil
  then show ?thesis by simp
next
  case (Cons c cs)
  assume "list_all is_ws ws"
  with Cons have "is_ws c" by simp
  then have "\<not> is_digit c \<and> c \<noteq> CHR ''.'' \<and> c \<noteq> CHR ''e'' \<and> c \<noteq> CHR ''E''"
    by (auto simp: is_ws_def is_digit_def)
  with Cons show ?thesis by simp
qed

lemma loads_dumps:
  assumes enc: "json_dumps v ind = Inr s"
    and dk: "distinct_keys v"
    and ws: "list_all is_ws ws"
  shows "json_loads (s @ ws) = Some v"
proof -
  from enc have e: "iterencode ind 0 v = Inr s"
    by (simp add: json_dumps_def)
  from iterencode_start [OF e] obtain c cs where c: "s = c # cs" "value_start c"
    by blast
  then have sk: "skip_ws (s @ ws) = s @ ws"
    by (simp add: value_start_not_ws)
  from fuel_bound(1) e have "fuel v \<le> length s" by blast
  then have "fuel v \<le> length (s @ ws)" by simp
  with roundtrip_aux(1) e dk delimited_ws [OF ws]
  have "scan_once (length (s @ ws)) (s @ ws) = Some (v, ws)" by blast
  then show ?thesis
    by (simp add: json_loads_def sk skip_ws_all [OF ws] del: scan_once.simps)
qed

section \<open>Lemmas about timestamps\<close>

lemma length_dec:
  "\<forall>k. 0 < k \<longrightarrow> n < 10 ^ k \<longrightarrow> length (dec n) \<le> k"
proof (induction n rule: dec.induct)
  case (1 n)
  show ?case
  proof (intro allI impI)
    fix k :: nat
    assume k: "0 < k" and n: "n < 10 ^ k"
    show "length (dec n) \<le> k"
    proof (cases "n < 10")
      case True
      with k show ?thesis by (subst dec.simps) simp
    next
      case False
      from k obtain j where j: "k = Suc j" by (cases k) auto
      with n False have "0 < j" by (cases j) auto
      moreover from n j have "n div 10 < 10 ^ j" by (simp add: less_mult_imp_div_less)
      ultimately have "length (dec (n div 10)) \<le> j"
        using 1 False by blast
      with False j show ?thesis by (subst dec.simps) simp
    qed
  qed
qed

lemma length_fmt_d: "0 < w \<Longrightarrow> n < 10 ^ w \<Longrightarrow> length (fmt_d w n) = w"
  using length_dec [of n] by (simp add: fmt_d_def)

lemma fmt_d_digits: "list_all is_digit (fmt_d w n)"
proof -
  have "is_digit (CHR ''0'')" by (simp add: is_digit_def)
  then have "list_all is_digit (replicate (w - length (dec n)) (CHR ''0''))"
    by (simp add: list_all_iff)
  then show ?thesis by (simp add: fmt_d_def dec_digits)
qed

lemma digits_val_zeros: "digits_val (replicate k (CHR ''0'') @ s) = digits_val s"
  by (induction k) (simp_all add: digits_val_def digit_val_def)

lemma num_field_fmt_d: "num_field (fmt_d w n) = Some n"
  by (simp add: num_field_def fmt_d_digits) (simp add: fmt_d_def digits_val_zeros digits_val_dec dec_nonempty)

lemma iso_layout:
  assumes "length Y = 4" "length M = 2" "length D = 2" "length H = 2" "length Mi = 2"
    "length S = 2"
    and s: "s = Y @ ''-'' @ M @ ''-'' @ D @ ''T'' @ H @ '':'' @ Mi @ '':'' @ S @ F"
  shows "length s = 19 + length F"
    and "s ! 4 = CHR ''-''" and "s ! 7 = CHR ''-''" and "s ! 10 = CHR ''T''"
    and "s ! 13 = CHR '':''" and "s ! 16 = CHR '':''"
    and "take 4 s = Y" and "take 2 (drop 5 s) = M" and "take 2 (drop 8 s) = D"
    and "take 2 (drop 11 s) = H" and "take 2 (drop 14 s) = Mi"
    and "take 2 (drop 17 s) = S" and "drop 19 s = F"
  using assms(1-6) unfolding s by (simp_all add: nth_append)

lemma days_in_month_le: "days_in_month y m \<le> 31"
  by (simp add: days_in_month_def)

lemma parse_isoformat:
  assumes v: "valid_datetime d"
  shows "parse_iso8601 (isoformat d) = Some d"
proof -
  let ?Y = "fmt_d 4 (year d)" and ?M = "fmt_d 2 (month d)" and ?D = "fmt_d 2 (day d)"
  let ?H = "fmt_d 2 (hour d)" and ?Mi = "fmt_d 2 (minute d)" and ?S = "fmt_d 2 (second d)"
  let ?U = "fmt_d 6 (microsecond d)"
  let ?F = "if microsecond d \<noteq> 0 then ''.'' @ ?U else []"
  from v days_in_month_le [of "year d" "month d"] have bounds:
    "year d < 10 ^ 4" "month d < 10 ^ 2" "day d < 10 ^ 2" "hour d < 10 ^ 2"
    "minute d < 10 ^ 2" "second d < 10 ^ 2" "microsecond d < 10 ^ 6"
    by (simp_all add: valid_datetime_def)
  have len: "length ?Y = 4" "length ?M = 2" "length ?D = 2" "length ?H = 2" "length ?Mi = 2"
    "length ?S = 2" "length ?U = 6"
    using bounds by (simp_all add: length_fmt_d)
  have iso: "isoformat d = ?Y @ ''-'' @ ?M @ ''-'' @ ?D @ ''T'' @ ?H @ '':'' @ ?Mi @ '':'' @ ?S @ ?F"
    by (simp add: isoformat_def format_time_def)
  note lay = iso_layout [OF len(1-6) iso]
  have rec: "\<lparr>year = year d, month = month d, day = day d, hour = hour d, minute = minute d,
      second = second d, microsecond = microsecond d\<rparr> = d"
    by simp
  show ?thesis
  proof (cases "microsecond d = 0")
    case True
    then have l: "length (isoformat d) = 19"
      using lay(1) by simp
    from True have rec0: "\<lparr>year = year d, month = month d, day = day d, hour = hour d,
        minute = minute d, second = second d, microsecond = 0\<rparr> = d"
      by (cases d) simp
    show ?thesis
      using v
      by (simp add: parse_iso8601_def l lay(2-12) num_field_fmt_d rec0)
  next
    case False
    then have l: "length (isoformat d) = 26"
      using lay(1) len(7) by simp
    have dot: "isoformat d ! 19 = CHR ''.''"
    proof -
      have "isoformat d ! 19 = drop 19 (isoformat d) ! 0"
        by (simp add: l)
      also have "\<dots> = CHR ''.''"
        using False by (simp add: lay(13))
      finally show ?thesis .
    qed
    have frac: "drop 20 (isoformat d) = ?U"
    proof -
      have "drop 20 (isoformat d) = drop 1 (drop 19 (isoformat d))" by simp
      also have "\<dots> = ?U" using False by (simp add: lay(13))
      finally show ?thesis .
    qed
    show ?thesis
      using v False
      by (simp add: parse_iso8601_def l dot frac lay(2-12) num_field_fmt_d rec)
  qed
qed

subsection \<open>A timestamp needs no escaping\<close>

lemma digit_plain: "is_digit c \<Longrightarrow> plain_char c"
proof -
  have "set ''0123456789'' \<subseteq> set ''0123456789-:.T''" by simp
  then show "is_digit c \<Longrightarrow> plain_char c"
    unfolding is_digit_def plain_char_def by blast
qed

lemma escape_plain_char:
  assumes "plain_char c"
  shows "escape_char c = [c]"
proof -
  have "\<forall>c \<in> set ''0123456789-:.T''. escape_char c = [c]"
    by (simp add: escape_char_def)
  with assms show ?thesis
    unfolding plain_char_def by blast
qed

lemma fmt_d_plain: "list_all plain_char (fmt_d w n)"
  using fmt_d_digits [of w n] digit_plain unfolding list_all_iff by blast

lemma isoformat_plain: "list_all plain_char (isoformat d)"
  by (simp add: isoformat_def format_time_def fmt_d_plain) (simp add: plain_char_def)

lemma concat_escape_plain: "list_all plain_char s \<Longrightarrow> concat (map escape_char s) = s"
  by (induction s) (simp_all add: escape_plain_char)

section \<open>Evaluating the program\<close>

lemma expected_tail_quote: "expected_tail = CHR 0x22 # tl expected_tail"
  by (simp add: expected_tail_def)

lemma dumps_status:
  "json_dumps (fst (create_project_status w)) 2 =
     Inr (expected_head @ isoformat (clock w (clock_reads w)) @ expected_tail)"
proof -
  define ts where "ts = isoformat (clock w (clock_reads w))"
  have esc: "concat (map escape_char ts) = ts"
    unfolding ts_def by (rule concat_escape_plain [OF isoformat_plain])
  have "json_dumps (fst (create_project_status w)) 2 =
     Inr (expected_head @ (concat (map escape_char ts) @ [CHR 0x22]) @ tl expected_tail)"
    unfolding create_project_status_def datetime_now_def Let_def split_conv fst_conv
      ts_def [symmetric]
    apply code_simp
    apply (simp only: append_assoc append.simps)
    done
  also have "(concat (map escape_char ts) @ [CHR 0x22]) @ tl expected_tail = ts @ expected_tail"
    using expected_tail_quote by (simp add: esc)
  finally show ?thesis
    by (simp only: ts_def)
qed

lemma snd_create_project_status:
  "snd (create_project_status w) = w\<lparr>clock_reads := Suc (clock_reads w)\<rparr>"
  by (simp add: create_project_status_def datetime_now_def)

lemma last_updated_field:
  "dict_get (fst (create_project_status w)) ''last_updated''
     = Some (PStr (isoformat (clock w (clock_reads w))))"
  by (simp add: create_project_status_def datetime_now_def)

lemma status_keys:
  "dict_keys (fst (create_project_status w)) =
     [''project_name'', ''project_path'', ''current_phase'', ''phase_status'', ''last_updated'',
      ''completed_infrastructure'', ''development_requirements'', ''next_actions'']"
  by (simp add: create_project_status_def datetime_now_def)

lemma status_distinct_keys: "distinct_keys (fst (create_project_status w))"
  by (simp add: create_project_status_def datetime_now_def)

lemma run_main_print:
  "run_main w =
     print (expected_head @ isoformat (clock w (clock_reads w)) @ expected_tail)
       (snd (create_project_status w))"
proof -
  obtain status w1 where c: "create_project_status w = (status, w1)"
    by (cases "create_project_status w")
  have s: "status = fst (create_project_status w)"
    by (simp add: c)
  show ?thesis
    unfolding run_main_def c
    by (simp add: s dumps_status)
qed

subsection \<open>The text is ASCII\<close>

lemma plain_is_ascii: "plain_char c \<Longrightarrow> is_ascii c"
proof -
  have "\<forall>c \<in> set ''0123456789-:.T''. is_ascii c"
    by (simp add: is_ascii_def)
  then show "plain_char c \<Longrightarrow> is_ascii c"
    unfolding plain_char_def by blast
qed

lemma isoformat_ascii: "list_all is_ascii (isoformat d)"
  using isoformat_plain [of d] plain_is_ascii unfolding list_all_iff by blast

lemma expected_ascii: "list_all is_ascii expected_head" "list_all is_ascii expected_tail"
  by (simp_all add: expected_head_def expected_tail_def is_ascii_def)

lemma output_ascii:
  "list_all is_ascii (expected_head @ isoformat d @ expected_tail)"
  by (simp add: expected_ascii isoformat_ascii)

subsection \<open>Encoding and writing\<close>

lemma wire_append: "wire enc (a @ b) = wire enc a @ wire enc b"
  by (cases enc) simp_all

lemma encode_text_ascii: "list_all is_ascii s \<Longrightarrow> encode_text enc s = Some (wire enc s)"
  by (induction s) (cases enc; simp add: is_ascii_def)+

lemma newline_ascii: "list_all is_ascii [CHR 0x0A]"
  by (simp add: is_ascii_def)

lemma wire_ascii_compatible: "ascii_compatible enc \<Longrightarrow> wire enc s = s"
  by (cases enc) simp_all

lemma length_wire_utf16: "length (wire UTF16 s) = 2 * length s"
  by (induction s) simp_all

text \<open>
  Whatever the buffering, a write to a stream whose device accepts adds the encoded
  bytes to what the device has taken or will take.
\<close>

lemma stream_write_accepts:
  assumes "accepts st" and "encode_text (encoding st) s = Some bytes"
  shows "\<exists>st1. stream_write s st = Inr st1 \<and> accepts st1 \<and> encoding st1 = encoding st
           \<and> \<not> start_of_stream st1
           \<and> written st1 @ pending st1 = written st @ pending st @ bom st @ bytes"
  using assms by (simp add: stream_write_def Let_def)

lemma flush_accepts:
  assumes "accepts st"
  shows "\<exists>st1. flush st = Inr st1 \<and> pending st1 = [] \<and> written st1 = written st @ pending st"
  using assms by (simp add: flush_def)

lemma print_accepts:
  assumes st: "stdout w = Some st" and acc: "accepts st" and asc: "list_all is_ascii s"
  shows "\<exists>st2. print s w = Inr (w\<lparr>stdout := Some st2\<rparr>) \<and> accepts st2
           \<and> written st2 @ pending st2
               = written st @ pending st @ bom st @ wire (encoding st) (s @ [CHR 0x0A])"
proof -
  from stream_write_accepts [OF acc encode_text_ascii [OF asc]]
  obtain st1 where 1: "stream_write s st = Inr st1" "accepts st1" "encoding st1 = encoding st"
    "\<not> start_of_stream st1"
    "written st1 @ pending st1 = written st @ pending st @ bom st @ wire (encoding st) s"
    by blast
  from stream_write_accepts [OF 1(2) encode_text_ascii [OF newline_ascii]]
  obtain st2 where 2: "stream_write [CHR 0x0A] st1 = Inr st2" "accepts st2"
    "written st2 @ pending st2
       = written st1 @ pending st1 @ bom st1 @ wire (encoding st1) [CHR 0x0A]"
    by blast
  from 1(4) have b: "bom st1 = []"
    by (simp add: bom_def)
  have "written st2 @ pending st2
          = written st @ pending st @ bom st @ wire (encoding st) (s @ [CHR 0x0A])"
    using 2(3) 1(5) by (simp add: b 1(3) wire_append del: wire.simps)
  moreover have "print s w = Inr (w\<lparr>stdout := Some st2\<rparr>)"
    by (simp add: print_def st 1(1) 2(1))
  ultimately show ?thesis
    using 2(2) by blast
qed

text \<open>The whole process in front of a device that accepts.\<close>

lemma run_process_accepts:
  assumes st: "stdout w = Some st" and acc: "accepts st"
  shows "\<exists>st3. run_process w
            = (0, w\<lparr>clock_reads := Suc (clock_reads w), stdout := Some st3\<rparr>)
          \<and> pending st3 = []
          \<and> written st3 = written st @ pending st @ bom st
               @ wire (encoding st)
                   (expected_head @ isoformat (clock w (clock_reads w)) @ expected_tail
                      @ [CHR 0x0A])"
proof -
  let ?w1 = "w\<lparr>clock_reads := Suc (clock_reads w)\<rparr>"
  let ?text = "expected_head @ isoformat (clock w (clock_reads w)) @ expected_tail"
  have st1: "stdout ?w1 = Some st"
    by (simp add: st)
  from print_accepts [OF st1 acc output_ascii, of "clock w (clock_reads w)"]
  obtain st2 where p: "print ?text ?w1 = Inr (?w1\<lparr>stdout := Some st2\<rparr>)" "accepts st2"
    "written st2 @ pending st2
       = written st @ pending st @ bom st @ wire (encoding st) (?text @ [CHR 0x0A])"
    by blast
  from flush_accepts [OF p(2)]
  obtain st3 where f: "flush st2 = Inr st3" "pending st3 = []"
    "written st3 = written st2 @ pending st2"
    by blast
  have r: "run_process w = (0, ?w1\<lparr>stdout := Some st3\<rparr>)"
    by (simp add: run_process_def run_main_print snd_create_project_status p(1) f(1))
  have w3: "written st3 = written st @ pending st @ bom st
               @ wire (encoding st) (?text @ [CHR 0x0A])"
    using f(3) p(3) by simp
  show ?thesis
    by (rule exI [of _ st3]) (simp add: r f(2) w3)
qed

lemma clock_reads_print:
  "(case print s w of Inl (e, w1) \<Rightarrow> clock_reads w1 | Inr w1 \<Rightarrow> clock_reads w1) = clock_reads w"
  by (simp add: print_def split: option.splits sum.splits prod.splits)

lemma clock_reads_run_process: "clock_reads (snd (run_process w)) = Suc (clock_reads w)"
proof -
  let ?w1 = "w\<lparr>clock_reads := Suc (clock_reads w)\<rparr>"
  let ?text = "expected_head @ isoformat (clock w (clock_reads w)) @ expected_tail"
  have "(case print ?text ?w1 of Inl (e, w1) \<Rightarrow> clock_reads w1 | Inr w1 \<Rightarrow> clock_reads w1)
          = Suc (clock_reads w)"
    by (simp add: clock_reads_print)
  then show ?thesis
    by (auto simp: run_process_def run_main_print snd_create_project_status
        split: option.splits sum.splits prod.splits)
qed

text \<open>The process depends on the world through the clock reading and the stream only.\<close>

lemma print_stream_only:
  assumes "stdout w1 = stdout w2"
  shows "(case print s w1 of Inl (e, w) \<Rightarrow> Inl (e, stdout w) | Inr w \<Rightarrow> Inr (stdout w))
       = (case print s w2 of Inl (e, w) \<Rightarrow> Inl (e, stdout w) | Inr w \<Rightarrow> Inr (stdout w))"
  using assms by (simp add: print_def split: option.splits sum.splits prod.splits)

lemma wire_nonempty: "s \<noteq> [] \<Longrightarrow> wire enc s \<noteq> []"
  by (cases enc; cases s) simp_all

lemma stream_write_buffered:
  assumes "\<not> write_through st" and "encode_text (encoding st) s = Some bytes"
    and "length (pending st @ bom st @ bytes) < chunk_size"
  shows "\<exists>st1. stream_write s st = Inr st1 \<and> \<not> start_of_stream st1
           \<and> encoding st1 = encoding st \<and> write_through st1 = write_through st
           \<and> accepts st1 = accepts st \<and> written st1 = written st
           \<and> pending st1 = pending st @ bom st @ bytes"
  using assms by (simp add: stream_write_def Let_def)

text \<open>The whole process in front of a device that rejects, when the text fits the buffer.\<close>

lemma run_process_rejects:
  assumes st: "stdout w = Some st" and rej: "\<not> accepts st" and buf: "\<not> write_through st"
    and fits: "length (pending st @ bom st
                 @ wire (encoding st)
                     (expected_head @ isoformat (clock w (clock_reads w)) @ expected_tail
                        @ [CHR 0x0A])) < chunk_size"
  shows "exit_status w = 120 \<and>
         map_option written (stdout (snd (run_process w))) = Some (written st)"
proof -
  let ?w1 = "w\<lparr>clock_reads := Suc (clock_reads w)\<rparr>"
  let ?text = "expected_head @ isoformat (clock w (clock_reads w)) @ expected_tail"
  let ?enc = "encoding st"
  from fits have l2: "length (pending st @ bom st @ wire ?enc ?text @ wire ?enc [CHR 0x0A])
      < chunk_size"
    using wire_append [of ?enc ?text "[CHR 0x0A]"] by simp
  then have l1: "length (pending st @ bom st @ wire ?enc ?text) < chunk_size"
    by simp
  from stream_write_buffered [OF buf encode_text_ascii [OF output_ascii] l1]
  obtain st1 where 1: "stream_write ?text st = Inr st1" "\<not> start_of_stream st1"
    "encoding st1 = ?enc" "write_through st1 = write_through st" "accepts st1 = accepts st"
    "written st1 = written st" "pending st1 = pending st @ bom st @ wire ?enc ?text"
    by blast
  have b1: "bom st1 = []"
    using 1(2) by (simp add: bom_def)
  have buf1: "\<not> write_through st1"
    using buf 1(4) by simp
  have l2': "length (pending st1 @ bom st1 @ wire (encoding st1) [CHR 0x0A]) < chunk_size"
    using l2 by (simp add: 1(3,7) b1 del: wire.simps)
  from stream_write_buffered [OF buf1 encode_text_ascii [OF newline_ascii] l2']
  obtain st2 where 2: "stream_write [CHR 0x0A] st1 = Inr st2" "accepts st2 = accepts st1"
    "written st2 = written st1"
    "pending st2 = pending st1 @ bom st1 @ wire (encoding st1) [CHR 0x0A]"
    by blast
  have p: "print ?text ?w1 = Inr (?w1\<lparr>stdout := Some st2\<rparr>)"
    by (simp add: print_def st 1(1) 2(1))
  have ne: "pending st2 \<noteq> []"
    using wire_nonempty [of "[CHR 0x0A]" "encoding st1"] by (simp add: 2(4) del: wire.simps)
  have f: "flush st2 = Inl OSError"
    using rej ne by (simp add: flush_def 2(2) 1(5))
  have "run_process w = (120, ?w1\<lparr>stdout := Some st2\<rparr>)"
    by (simp add: run_process_def run_main_print snd_create_project_status p f)
  then show ?thesis
    by (simp add: exit_status_def 2(3) 1(6))
qed

lemma expected_lengths: "length expected_head = 219" "length expected_tail = 1789"
  by (simp_all add: expected_head_def expected_tail_def)

lemma loads_output:
  "json_loads (expected_head @ isoformat (clock w (clock_reads w)) @ expected_tail @ [CHR 0x0A])
     = Some (fst (create_project_status w))"
proof -
  have "list_all is_ws [CHR 0x0A]"
    by (simp add: is_ws_def)
  from loads_dumps [OF dumps_status status_distinct_keys this, of w] show ?thesis
    by simp
qed

lemma loads_dumps_text:
  "json_loads (expected_head @ isoformat (clock w (clock_reads w)) @ expected_tail)
     = Some (fst (create_project_status w))"
proof -
  have "list_all is_ws []"
    by simp
  from loads_dumps [OF dumps_status status_distinct_keys this, of w] show ?thesis
    by simp
qed

lemma example_isoformat:
  "isoformat example_time = ''2026-11-05T09:07:03.120045''"
  "isoformat later_time = ''2027-02-28T23:59:59''"
  by (simp_all add: isoformat_def format_time_def fmt_d_def dec.simps digit_char_def
      example_time_def later_time_def)

lemma example_world_fields:
  "stdout example_world = Some pipe_stream"
  "clock example_world (clock_reads example_world) = example_time"
  "accepts pipe_stream" "encoding pipe_stream = UTF8" "written pipe_stream = []"
  "pending pipe_stream = []" "bom pipe_stream = []"
  by (simp_all add: example_world_def pipe_stream_def bom_def)

lemma run_main_accepts:
  assumes st: "stdout w = Some st" and acc: "accepts st"
  shows "\<exists>w'. run_main w = Inr w'"
proof -
  have "stdout (snd (create_project_status w)) = Some st"
    by (simp add: snd_create_project_status st)
  from print_accepts [OF this acc output_ascii, of "clock w (clock_reads w)"]
  show ?thesis
    unfolding run_main_print by blast
qed

lemma run_process_stream_only:
  assumes c: "clock w1 (clock_reads w1) = clock w2 (clock_reads w2)"
    and s: "stdout w1 = stdout w2"
  shows "fst (run_process w1) = fst (run_process w2)
     \<and> stdout (snd (run_process w1)) = stdout (snd (run_process w2))"
proof -
  let ?t = "expected_head @ isoformat (clock w1 (clock_reads w1)) @ expected_tail"
  let ?a = "w1\<lparr>clock_reads := Suc (clock_reads w1)\<rparr>"
  let ?b = "w2\<lparr>clock_reads := Suc (clock_reads w2)\<rparr>"
  have "stdout ?a = stdout ?b"
    by (simp add: s)
  from print_stream_only [OF this, of ?t]
  have e: "(case print ?t ?a of Inl (e, w) \<Rightarrow> Inl (e, stdout w) | Inr w \<Rightarrow> Inr (stdout w))
       = (case print ?t ?b of Inl (e, w) \<Rightarrow> Inl (e, stdout w) | Inr w \<Rightarrow> Inr (stdout w))" .
  have r1: "run_main w1 = print ?t ?a"
    by (simp add: run_main_print snd_create_project_status)
  have r2: "run_main w2 = print ?t ?b"
    by (simp add: run_main_print snd_create_project_status c)
  show ?thesis
    using e unfolding run_process_def r1 r2
    by (auto split: sum.splits option.splits prod.splits)
qed

lemma full_world_fields:
  "stdout full_world = Some (pipe_stream\<lparr>accepts := False\<rparr>)"
  "clock full_world (clock_reads full_world) = example_time"
  by (simp_all add: full_world_def)

lemma full_world_process:
  "exit_status full_world = 120
   \<and> map_option written (stdout (snd (run_process full_world))) = Some []"
proof -
  let ?st = "pipe_stream\<lparr>accepts := False\<rparr>"
  have "length (pending ?st @ bom ?st
                 @ wire (encoding ?st)
                     (expected_head @ isoformat (clock full_world (clock_reads full_world))
                        @ expected_tail @ [CHR 0x0A])) < chunk_size"
    by (simp add: pipe_stream_def bom_def full_world_fields example_isoformat expected_lengths
        chunk_size_def)
  from run_process_rejects [OF full_world_fields(1) _ _ this] show ?thesis
    by (simp add: pipe_stream_def)
qed

section \<open>The claims\<close>

text \<open>
  Claim C1. For every invocation the record returned by the builder has exactly the
  top-level keys \<open>project_name\<close>, \<open>project_path\<close>, \<open>current_phase\<close>, \<open>phase_status\<close>,
  \<open>last_updated\<close>, \<open>completed_infrastructure\<close>, \<open>development_requirements\<close>,
  \<open>next_actions\<close>, in that order. The text the program hands to \<open>print\<close>, with the
  newline \<open>print\<close> adds, read back as a document has the same top-level keys in the same
  order; and when standard output is open, accepts the write and has an
  ASCII-compatible encoding, so do the bytes the device receives.
\<close>

theorem top_level_keys:
  "dict_keys (fst (create_project_status w)) =
     [''project_name'', ''project_path'', ''current_phase'', ''phase_status'', ''last_updated'',
      ''completed_infrastructure'', ''development_requirements'', ''next_actions'']
   \<and> (\<exists>out. json_dumps (fst (create_project_status w)) 2 = Inr out
         \<and> run_main w = print out (snd (create_project_status w))
         \<and> map_option dict_keys (json_loads (out @ [CHR 0x0A])) =
             Some [''project_name'', ''project_path'', ''current_phase'', ''phase_status'',
                   ''last_updated'', ''completed_infrastructure'', ''development_requirements'',
                   ''next_actions''])
   \<and> (\<forall>st. stdout w = Some st \<and> accepts st \<and> ascii_compatible (encoding st) \<longrightarrow>
         (\<exists>st' bytes. stdout (snd (run_process w)) = Some st' \<and> pending st' = []
            \<and> written st' = written st @ pending st @ bytes
            \<and> map_option dict_keys (json_loads bytes) =
                Some [''project_name'', ''project_path'', ''current_phase'', ''phase_status'',
                      ''last_updated'', ''completed_infrastructure'',
                      ''development_requirements'', ''next_actions'']))"
proof -
  let ?text = "expected_head @ isoformat (clock w (clock_reads w)) @ expected_tail"
  let ?keys = "[''project_name'', ''project_path'', ''current_phase'', ''phase_status'',
      ''last_updated'', ''completed_infrastructure'', ''development_requirements'',
      ''next_actions'']"
  have k: "map_option dict_keys (json_loads (?text @ [CHR 0x0A])) = Some ?keys"
    using loads_output [of w] by (simp add: status_keys)
  have dev: "\<exists>st' bytes. stdout (snd (run_process w)) = Some st' \<and> pending st' = []
            \<and> written st' = written st @ pending st @ bytes
            \<and> map_option dict_keys (json_loads bytes) = Some ?keys"
    if st: "stdout w = Some st" and acc: "accepts st" and ac: "ascii_compatible (encoding st)"
    for st
  proof -
    from run_process_accepts [OF st acc] obtain st3
      where r: "run_process w = (0, w\<lparr>clock_reads := Suc (clock_reads w), stdout := Some st3\<rparr>)"
        "pending st3 = []"
        "written st3 = written st @ pending st @ bom st @ wire (encoding st) (?text @ [CHR 0x0A])"
      by auto
    from ac have b: "bom st = []"
      by (auto simp: bom_def)
    have "written st3 = written st @ pending st @ ?text @ [CHR 0x0A]"
      using r(3) by (simp add: b wire_ascii_compatible [OF ac])
    with r(1,2) k show ?thesis
      by (intro exI [of _ st3] exI [of _ "?text @ [CHR 0x0A]"]) simp
  qed
  have d: "json_dumps (fst (create_project_status w)) 2 = Inr ?text"
    by (rule dumps_status)
  have rm: "run_main w = print ?text (snd (create_project_status w))"
    by (rule run_main_print)
  from d rm k have "json_dumps (fst (create_project_status w)) 2 = Inr ?text
         \<and> run_main w = print ?text (snd (create_project_status w))
         \<and> map_option dict_keys (json_loads (?text @ [CHR 0x0A])) = Some ?keys"
    by (intro conjI)
  then have "\<exists>out. json_dumps (fst (create_project_status w)) 2 = Inr out
         \<and> run_main w = print out (snd (create_project_status w))
         \<and> map_option dict_keys (json_loads (out @ [CHR 0x0A])) = Some ?keys"
    by (rule exI [of _ ?text])
  then show ?thesis
  proof (intro conjI allI impI)
    show "dict_keys (fst (create_project_status w)) = ?keys"
      by (rule status_keys)
  next
    fix st
    assume "stdout w = Some st \<and> accepts st \<and> ascii_compatible (encoding st)"
    then show "\<exists>st' bytes. stdout (snd (run_process w)) = Some st' \<and> pending st' = []
            \<and> written st' = written st @ pending st @ bytes
            \<and> map_option dict_keys (json_loads bytes) = Some ?keys"
      by (elim conjE) (rule dev)
  qed
qed

theorem top_level_keys_witness:
  "(stdout example_world = Some pipe_stream \<and> accepts pipe_stream
      \<and> ascii_compatible (encoding pipe_stream))
   \<and> (\<exists>st' bytes. stdout (snd (run_process example_world)) = Some st' \<and> pending st' = []
         \<and> written st' = written pipe_stream @ pending pipe_stream @ bytes
         \<and> map_option dict_keys (json_loads bytes) =
             Some [''project_name'', ''project_path'', ''current_phase'', ''phase_status'',
                   ''last_updated'', ''completed_infrastructure'',
                   ''development_requirements'', ''next_actions''])"
proof -
  have h: "stdout example_world = Some pipe_stream \<and> accepts pipe_stream
      \<and> ascii_compatible (encoding pipe_stream)"
    by (simp add: example_world_fields)
  from top_level_keys [of example_world]
  have "\<forall>st. stdout example_world = Some st \<and> accepts st \<and> ascii_compatible (encoding st) \<longrightarrow>
         (\<exists>st' bytes. stdout (snd (run_process example_world)) = Some st' \<and> pending st' = []
            \<and> written st' = written st @ pending st @ bytes
            \<and> map_option dict_keys (json_loads bytes) =
                Some [''project_name'', ''project_path'', ''current_phase'', ''phase_status'',
                      ''last_updated'', ''completed_infrastructure'',
                      ''development_requirements'', ''next_actions''])"
    by (elim conjE)
  then have "stdout example_world = Some pipe_stream \<and> accepts pipe_stream
        \<and> ascii_compatible (encoding pipe_stream) \<longrightarrow>
         (\<exists>st' bytes. stdout (snd (run_process example_world)) = Some st' \<and> pending st' = []
            \<and> written st' = written pipe_stream @ pending pipe_stream @ bytes
            \<and> map_option dict_keys (json_loads bytes) =
                Some [''project_name'', ''project_path'', ''current_phase'', ''phase_status'',
                      ''last_updated'', ''completed_infrastructure'',
                      ''development_requirements'', ''next_actions''])"
    by (rule spec)
  from this h have "\<exists>st' bytes. stdout (snd (run_process example_world)) = Some st'
         \<and> pending st' = []
         \<and> written st' = written pipe_stream @ pending pipe_stream @ bytes
         \<and> map_option dict_keys (json_loads bytes) =
             Some [''project_name'', ''project_path'', ''current_phase'', ''phase_status'',
                   ''last_updated'', ''completed_infrastructure'',
                   ''development_requirements'', ''next_actions'']"
    by (rule mp)
  with h show ?thesis
    by (rule conjI)
qed

text \<open>
  Claim C2. For every invocation the record returned by the builder has
  \<open>project_name\<close> equal to "Caesar Token DEX/Wallet/App Development", \<open>phase_status\<close>
  equal to "INITIALIZING", and \<open>development_requirements\<close> is a dictionary with
  exactly the three keys \<open>agora_dex\<close>, \<open>satchel_wallet\<close>, \<open>tablets_ui\<close>.
\<close>

theorem builder_fixed_fields:
  "dict_get (fst (create_project_status w)) ''project_name''
     = Some (PStr ''Caesar Token DEX/Wallet/App Development'')
   \<and> dict_get (fst (create_project_status w)) ''phase_status'' = Some (PStr ''INITIALIZING'')
   \<and> map_option dict_keys (dict_get (fst (create_project_status w)) ''development_requirements'')
     = Some [''agora_dex'', ''satchel_wallet'', ''tablets_ui'']"
  by (simp add: create_project_status_def datetime_now_def)

text \<open>
  Claim C3. For any two invocations (any two worlds, hence any two clock readings) the
  two records have the same keys and agree on every key other than \<open>last_updated\<close>,
  and the two serialized texts are the same text around the two timestamps.
\<close>

theorem differ_only_in_last_updated:
  "dict_keys (fst (create_project_status w1)) = dict_keys (fst (create_project_status w2))
   \<and> (\<forall>k. k \<noteq> ''last_updated'' \<longrightarrow>
          dict_get (fst (create_project_status w1)) k = dict_get (fst (create_project_status w2)) k)
   \<and> (\<exists>ts1 ts2.
          dict_get (fst (create_project_status w1)) ''last_updated'' = Some (PStr ts1)
        \<and> dict_get (fst (create_project_status w2)) ''last_updated'' = Some (PStr ts2)
        \<and> json_dumps (fst (create_project_status w1)) 2 = Inr (expected_head @ ts1 @ expected_tail)
        \<and> json_dumps (fst (create_project_status w2)) 2 = Inr (expected_head @ ts2 @ expected_tail))"
proof -
  have "\<forall>k. k \<noteq> ''last_updated'' \<longrightarrow>
          dict_get (fst (create_project_status w1)) k = dict_get (fst (create_project_status w2)) k"
    by (simp add: create_project_status_def datetime_now_def)
  then show ?thesis
    by (simp add: status_keys last_updated_field dumps_status)
qed

theorem differ_only_in_last_updated_witness:
  "''project_path'' \<noteq> ''last_updated''
   \<and> dict_get (fst (create_project_status example_world)) ''project_path''
       = dict_get (fst (create_project_status later_world)) ''project_path''
   \<and> dict_get (fst (create_project_status example_world)) ''last_updated''
       \<noteq> dict_get (fst (create_project_status later_world)) ''last_updated''"
proof -
  have ne: "''project_path'' \<noteq> ''last_updated''"
    by simp
  have lu: "dict_get (fst (create_project_status example_world)) ''last_updated''
       \<noteq> dict_get (fst (create_project_status later_world)) ''last_updated''"
    by (simp add: last_updated_field example_world_def later_world_def example_isoformat)
  from differ_only_in_last_updated [of example_world later_world]
  have "\<forall>k. k \<noteq> ''last_updated'' \<longrightarrow>
          dict_get (fst (create_project_status example_world)) k
            = dict_get (fst (create_project_status later_world)) k"
    by (elim conjE)
  then have "''project_path'' \<noteq> ''last_updated'' \<longrightarrow>
          dict_get (fst (create_project_status example_world)) ''project_path''
            = dict_get (fst (create_project_status later_world)) ''project_path''"
    by (rule spec)
  with ne have "dict_get (fst (create_project_status example_world)) ''project_path''
            = dict_get (fst (create_project_status later_world)) ''project_path''"
    by (rule rev_mp)
  with ne lu show ?thesis
    by (intro conjI)
qed

text \<open>
  Claim C4. For every invocation the clock is read exactly once, while the record is
  built, and not again before the process ends, whatever happens to standard output;
  \<open>last_updated\<close> is the ISO 8601 text of that one reading, and reading the text back
  gives the reading again whenever the reading is a valid date and time.
\<close>

theorem last_updated_single_clock_reading:
  "clock_reads (snd (create_project_status w)) = Suc (clock_reads w)
   \<and> dict_get (fst (create_project_status w)) ''last_updated''
       = Some (PStr (isoformat (clock w (clock_reads w))))
   \<and> clock_reads (snd (run_process w)) = Suc (clock_reads w)
   \<and> (valid_datetime (clock w (clock_reads w)) \<longrightarrow>
        parse_iso8601 (isoformat (clock w (clock_reads w))) = Some (clock w (clock_reads w)))"
  by (simp add: snd_create_project_status last_updated_field clock_reads_run_process
      parse_isoformat)

theorem last_updated_single_clock_reading_witness:
  "valid_datetime (clock example_world (clock_reads example_world))
   \<and> dict_get (fst (create_project_status example_world)) ''last_updated''
       = Some (PStr ''2026-11-05T09:07:03.120045'')
   \<and> parse_iso8601 ''2026-11-05T09:07:03.120045'' = Some example_time"
proof -
  have c: "clock example_world (clock_reads example_world) = example_time"
    by (simp add: example_world_def)
  have v: "valid_datetime example_time"
    by (simp add: valid_datetime_def example_time_def days_in_month_def)
  from last_updated_single_clock_reading [of example_world] v show ?thesis
    by (simp add: c example_isoformat)
qed

text \<open>
  Claim C5. In the record returned by the builder, every entry under
  \<open>development_requirements\<close> (\<open>agora_dex\<close>, \<open>satchel_wallet\<close>, \<open>tablets_ui\<close>) has a
  \<open>needs\<close> field that is a non-empty list all of whose elements are strings.
\<close>

theorem needs_are_string_lists:
  "\<exists>reqs. dict_get (fst (create_project_status w)) ''development_requirements'' = Some reqs
     \<and> dict_keys reqs = [''agora_dex'', ''satchel_wallet'', ''tablets_ui'']
     \<and> (\<forall>entry \<in> set (dict_values reqs).
           \<exists>needs. dict_get entry ''needs'' = Some needs \<and> nonempty_str_list needs)"
  by (simp add: create_project_status_def datetime_now_def)

theorem needs_are_string_lists_witness:
  "\<exists>reqs entry needs.
     dict_get (fst (create_project_status example_world)) ''development_requirements'' = Some reqs
     \<and> dict_get reqs ''satchel_wallet'' = Some entry
     \<and> entry \<in> set (dict_values reqs)
     \<and> dict_get entry ''needs'' = Some needs \<and> nonempty_str_list needs"
  using needs_are_string_lists [of example_world]
  by (simp add: create_project_status_def datetime_now_def)

text \<open>
  Claim C6. For every invocation the serialized text is a pretty-printed JSON document
  with two-space indentation: it is \<open>expected_head\<close>, the timestamp, \<open>expected_tail\<close>; it
  is what \<open>json_dumps\<close> returns for the record with indent 2 and what the program hands to
  \<open>print\<close>; read back with the newline it is the record itself, so every dictionary
  keeps the key order of its construction. When standard output is open and accepts the
  write, the device receives that text and a newline in the stream's encoding, which for
  an ASCII-compatible encoding is the text itself.
\<close>

theorem output_is_indented_document:
  "json_dumps (fst (create_project_status w)) 2
     = Inr (expected_head @ isoformat (clock w (clock_reads w)) @ expected_tail)
   \<and> json_loads (expected_head @ isoformat (clock w (clock_reads w)) @ expected_tail
                   @ [CHR 0x0A])
       = Some (fst (create_project_status w))
   \<and> run_main w
       = print (expected_head @ isoformat (clock w (clock_reads w)) @ expected_tail)
           (snd (create_project_status w))
   \<and> (\<forall>st. stdout w = Some st \<and> accepts st \<longrightarrow>
         (\<exists>st'. stdout (snd (run_process w)) = Some st' \<and> pending st' = []
            \<and> written st' = written st @ pending st @ bom st
                 @ wire (encoding st)
                     (expected_head @ isoformat (clock w (clock_reads w)) @ expected_tail
                        @ [CHR 0x0A])))
   \<and> (\<forall>st. stdout w = Some st \<and> accepts st \<and> ascii_compatible (encoding st) \<longrightarrow>
         (\<exists>st'. stdout (snd (run_process w)) = Some st' \<and> pending st' = []
            \<and> written st' = written st @ pending st
                 @ expected_head @ isoformat (clock w (clock_reads w)) @ expected_tail
                 @ [CHR 0x0A]))"
proof (intro conjI allI impI)
  show "json_dumps (fst (create_project_status w)) 2
     = Inr (expected_head @ isoformat (clock w (clock_reads w)) @ expected_tail)"
    by (rule dumps_status)
  show "json_loads (expected_head @ isoformat (clock w (clock_reads w)) @ expected_tail
                   @ [CHR 0x0A])
       = Some (fst (create_project_status w))"
    by (rule loads_output)
  show "run_main w
       = print (expected_head @ isoformat (clock w (clock_reads w)) @ expected_tail)
           (snd (create_project_status w))"
    by (rule run_main_print)
next
  fix st
  assume "stdout w = Some st \<and> accepts st"
  then have st: "stdout w = Some st" and acc: "accepts st"
    by simp_all
  from run_process_accepts [OF st acc] obtain st3
    where r: "run_process w = (0, w\<lparr>clock_reads := Suc (clock_reads w), stdout := Some st3\<rparr>)"
      "pending st3 = []"
      "written st3 = written st @ pending st @ bom st
          @ wire (encoding st)
              (expected_head @ isoformat (clock w (clock_reads w)) @ expected_tail @ [CHR 0x0A])"
    by auto
  then show "\<exists>st'. stdout (snd (run_process w)) = Some st' \<and> pending st' = []
            \<and> written st' = written st @ pending st @ bom st
                 @ wire (encoding st)
                     (expected_head @ isoformat (clock w (clock_reads w)) @ expected_tail
                        @ [CHR 0x0A])"
    by (intro exI [of _ st3]) simp
next
  fix st
  assume "stdout w = Some st \<and> accepts st \<and> ascii_compatible (encoding st)"
  then have st: "stdout w = Some st" and acc: "accepts st"
    and ac: "ascii_compatible (encoding st)"
    by simp_all
  from run_process_accepts [OF st acc] obtain st3
    where r: "run_process w = (0, w\<lparr>clock_reads := Suc (clock_reads w), stdout := Some st3\<rparr>)"
      "pending st3 = []"
      "written st3 = written st @ pending st @ bom st
          @ wire (encoding st)
              (expected_head @ isoformat (clock w (clock_reads w)) @ expected_tail @ [CHR 0x0A])"
    by auto
  from ac have b: "bom st = []"
    by (auto simp: bom_def)
  have "written st3 = written st @ pending st
          @ expected_head @ isoformat (clock w (clock_reads w)) @ expected_tail @ [CHR 0x0A]"
    using r(3) by (simp add: b wire_ascii_compatible [OF ac])
  with r(1,2) show "\<exists>st'. stdout (snd (run_process w)) = Some st' \<and> pending st' = []
            \<and> written st' = written st @ pending st
                 @ expected_head @ isoformat (clock w (clock_reads w)) @ expected_tail
                 @ [CHR 0x0A]"
    by (intro exI [of _ st3]) simp
qed

theorem output_is_indented_document_witness:
  "(stdout example_world = Some pipe_stream \<and> accepts pipe_stream
      \<and> ascii_compatible (encoding pipe_stream))
   \<and> (\<exists>st'. stdout (snd (run_process example_world)) = Some st' \<and> pending st' = []
         \<and> written st' = expected_head @ ''2026-11-05T09:07:03.120045'' @ expected_tail
              @ [CHR 0x0A])"
proof -
  have h: "stdout example_world = Some pipe_stream \<and> accepts pipe_stream
      \<and> ascii_compatible (encoding pipe_stream)"
    by (simp add: example_world_fields)
  from output_is_indented_document [of example_world]
  have "\<forall>st. stdout example_world = Some st \<and> accepts st \<and> ascii_compatible (encoding st) \<longrightarrow>
         (\<exists>st'. stdout (snd (run_process example_world)) = Some st' \<and> pending st' = []
            \<and> written st' = written st @ pending st
                 @ expected_head
                 @ isoformat (clock example_world (clock_reads example_world))
                 @ expected_tail @ [CHR 0x0A])"
    by (elim conjE)
  then have "stdout example_world = Some pipe_stream \<and> accepts pipe_stream
        \<and> ascii_compatible (encoding pipe_stream) \<longrightarrow>
         (\<exists>st'. stdout (snd (run_process example_world)) = Some st' \<and> pending st' = []
            \<and> written st' = written pipe_stream @ pending pipe_stream
                 @ expected_head
                 @ isoformat (clock example_world (clock_reads example_world))
                 @ expected_tail @ [CHR 0x0A])"
    by (rule spec)
  from this h have "\<exists>st'. stdout (snd (run_process example_world)) = Some st'
         \<and> pending st' = []
         \<and> written st' = written pipe_stream @ pending pipe_stream
                 @ expected_head
                 @ isoformat (clock example_world (clock_reads example_world))
                 @ expected_tail @ [CHR 0x0A]"
    by (rule mp)
  then have "\<exists>st'. stdout (snd (run_process example_world)) = Some st' \<and> pending st' = []
         \<and> written st' = expected_head @ ''2026-11-05T09:07:03.120045'' @ expected_tail
              @ [CHR 0x0A]"
    by (simp only: example_world_fields example_isoformat append_Nil)
  with h show ?thesis
    by (rule conjI)
qed

text \<open>
  Claim C7. For every invocation, parsing the serialized text (with or without the
  newline that \<open>print\<close> adds) gives a document whose serialization with the same indent
  is the same text, character for character; the document is the record itself.
\<close>

theorem roundtrip_byte_identical:
  "\<exists>out. json_dumps (fst (create_project_status w)) 2 = Inr out
     \<and> json_loads out = Some (fst (create_project_status w))
     \<and> (\<exists>doc. json_loads out = Some doc \<and> json_dumps doc 2 = Inr out)
     \<and> (\<exists>doc. json_loads (out @ [CHR 0x0A]) = Some doc \<and> json_dumps doc 2 = Inr out)"
  using loads_output [of w] loads_dumps_text [of w]
  by (simp add: dumps_status)

text \<open>
  Claim C8. Every value nested in the record returned by the builder is a string, a list
  of strings, or a dictionary of such values. Values of \<open>pyval\<close> are finite trees, which
  is exact for a record built from literals only; its nesting depth is four.
\<close>

theorem record_shape:
  "report_shape (fst (create_project_status w)) \<and>
   nesting_depth (fst (create_project_status w)) = 4"
  by (simp add: create_project_status_def datetime_now_def)

text \<open>
  Claim C9, as stated: for every invocation building and serializing the record never
  fail, the output is written in full and the process ends with success status. That
  is false when standard output does not take the write: with standard output on a full
  device nothing is written and the exit status is 120.
\<close>

theorem never_fails_counterexample:
  "exit_status full_world = 120
   \<and> map_option written (stdout (snd (run_process full_world))) = Some []"
  by (rule full_world_process)

text \<open>
  Claim C9, amended. For every invocation building and serializing the record never
  fail: the encoder returns a text and cannot raise. Whenever standard output is open
  and its device accepts the write, no exception is raised, the whole text and a newline
  are written in the stream's encoding, and the process ends with status 0.
\<close>

theorem never_fails:
  "\<exists>out. json_dumps (fst (create_project_status w)) 2 = Inr out
     \<and> (\<forall>e. json_dumps (fst (create_project_status w)) 2 \<noteq> Inl e)
     \<and> (\<forall>st. stdout w = Some st \<and> accepts st \<longrightarrow>
           (\<exists>w'. run_main w = Inr w') \<and> exit_status w = 0
           \<and> (\<exists>st'. stdout (snd (run_process w)) = Some st' \<and> pending st' = []
                \<and> written st' = written st @ pending st @ bom st
                     @ wire (encoding st) (out @ [CHR 0x0A])))"
proof (intro exI [of _ "expected_head @ isoformat (clock w (clock_reads w)) @ expected_tail"]
    conjI allI impI)
  show "json_dumps (fst (create_project_status w)) 2
     = Inr (expected_head @ isoformat (clock w (clock_reads w)) @ expected_tail)"
    by (rule dumps_status)
  show "json_dumps (fst (create_project_status w)) 2 \<noteq> Inl e" for e
    by (simp add: dumps_status)
next
  fix st
  assume "stdout w = Some st \<and> accepts st"
  then have st: "stdout w = Some st" and acc: "accepts st"
    by simp_all
  from run_process_accepts [OF st acc] obtain st3
    where r: "run_process w = (0, w\<lparr>clock_reads := Suc (clock_reads w), stdout := Some st3\<rparr>)"
      "pending st3 = []"
      "written st3 = written st @ pending st @ bom st
          @ wire (encoding st)
              (expected_head @ isoformat (clock w (clock_reads w)) @ expected_tail @ [CHR 0x0A])"
    by auto
  show "\<exists>w'. run_main w = Inr w'"
    by (rule run_main_accepts [OF st acc])
  show "exit_status w = 0"
    by (simp add: exit_status_def r(1))
  show "\<exists>st'. stdout (snd (run_process w)) = Some st' \<and> pending st' = []
          \<and> written st' = written st @ pending st @ bom st
               @ wire (encoding st)
                   ((expected_head @ isoformat (clock w (clock_reads w)) @ expected_tail)
                      @ [CHR 0x0A])"
    using r by (intro exI [of _ st3]) simp
qed

theorem never_fails_witness:
  "(stdout example_world = Some pipe_stream \<and> accepts pipe_stream)
   \<and> exit_status example_world = 0
   \<and> map_option written (stdout (snd (run_process example_world)))
       = Some (expected_head @ ''2026-11-05T09:07:03.120045'' @ expected_tail @ [CHR 0x0A])"
proof -
  have h: "stdout example_world = Some pipe_stream \<and> accepts pipe_stream"
    by (simp add: example_world_fields)
  from never_fails [of example_world] obtain out
    where d: "json_dumps (fst (create_project_status example_world)) 2 = Inr out"
      and a: "\<forall>st. stdout example_world = Some st \<and> accepts st \<longrightarrow>
           (\<exists>w'. run_main example_world = Inr w') \<and> exit_status example_world = 0
           \<and> (\<exists>st'. stdout (snd (run_process example_world)) = Some st' \<and> pending st' = []
                \<and> written st' = written st @ pending st @ bom st
                     @ wire (encoding st) (out @ [CHR 0x0A]))"
    by (elim exE conjE)
  from d have out: "out = expected_head @ ''2026-11-05T09:07:03.120045'' @ expected_tail"
    by (simp add: dumps_status example_world_fields example_isoformat)
  from a have "stdout example_world = Some pipe_stream \<and> accepts pipe_stream \<longrightarrow>
           (\<exists>w'. run_main example_world = Inr w') \<and> exit_status example_world = 0
           \<and> (\<exists>st'. stdout (snd (run_process example_world)) = Some st' \<and> pending st' = []
                \<and> written st' = written pipe_stream @ pending pipe_stream @ bom pipe_stream
                     @ wire (encoding pipe_stream) (out @ [CHR 0x0A]))"
    by (rule spec)
  from this h have c: "(\<exists>w'. run_main example_world = Inr w') \<and> exit_status example_world = 0
           \<and> (\<exists>st'. stdout (snd (run_process example_world)) = Some st' \<and> pending st' = []
                \<and> written st' = written pipe_stream @ pending pipe_stream @ bom pipe_stream
                     @ wire (encoding pipe_stream) (out @ [CHR 0x0A]))"
    by (rule mp)
  then obtain st' where s: "stdout (snd (run_process example_world)) = Some st'"
    "written st' = written pipe_stream @ pending pipe_stream @ bom pipe_stream
                     @ wire (encoding pipe_stream) (out @ [CHR 0x0A])"
    by (elim exE conjE)
  from s(2) have "written st' = out @ [CHR 0x0A]"
    by (simp add: example_world_fields)
  with s(1) have w: "map_option written (stdout (snd (run_process example_world)))
       = Some (expected_head @ ''2026-11-05T09:07:03.120045'' @ expected_tail @ [CHR 0x0A])"
    by (simp add: out)
  from c have e: "exit_status example_world = 0"
    by (elim conjE)
  from e w have "exit_status example_world = 0
   \<and> map_option written (stdout (snd (run_process example_world)))
       = Some (expected_head @ ''2026-11-05T09:07:03.120045'' @ expected_tail @ [CHR 0x0A])"
    by (rule conjI)
  with h show ?thesis
    by (rule conjI)
qed

text \<open>
  Claim C10, as stated: for a fixed clock reading two runs write byte-identical output,
  which depends on no other input. That is false: with the same clock reading, the run
  with \<^verbatim>\<open>PYTHONIOENCODING=utf-16\<close> in its environment writes other bytes than the run
  without it, and the run into a full device ends with another exit status.
\<close>

theorem output_depends_on_clock_only_counterexample:
  "clock example_world (clock_reads example_world) = clock utf16_world (clock_reads utf16_world)
   \<and> clock example_world (clock_reads example_world) = clock full_world (clock_reads full_world)
   \<and> stdio_from_environ example_world \<and> stdio_from_environ utf16_world
   \<and> map_option written (stdout (snd (run_process example_world)))
       \<noteq> map_option written (stdout (snd (run_process utf16_world)))
   \<and> exit_status example_world \<noteq> exit_status full_world"
proof -
  let ?t = "expected_head @ isoformat example_time @ expected_tail @ [CHR 0x0A]"
  let ?u = "pipe_stream\<lparr>encoding := UTF16\<rparr>"
  have u: "stdout utf16_world = Some ?u" "clock utf16_world (clock_reads utf16_world) = example_time"
    by (simp_all add: utf16_world_def)
  have au: "accepts ?u"
    by (simp add: pipe_stream_def)
  from run_process_accepts [OF example_world_fields(1,3)] obtain sa
    where sa: "stdout (snd (run_process example_world)) = Some sa" "written sa = ?t"
    by (auto simp: example_world_fields)
  then have a: "map_option written (stdout (snd (run_process example_world))) = Some ?t"
    by simp
  from run_process_accepts [OF u(1) au] obtain sb
    where sb: "stdout (snd (run_process utf16_world)) = Some sb"
      "written sb = wire UTF16 ?t"
    by (auto simp: u(2) pipe_stream_def bom_def simp del: wire.simps)
  then have b: "map_option written (stdout (snd (run_process utf16_world)))
      = Some (wire UTF16 ?t)"
    by (simp del: wire.simps)
  have "length (wire UTF16 ?t) \<noteq> length ?t"
    by (simp add: length_wire_utf16 del: wire.simps)
  then have ne: "wire UTF16 ?t \<noteq> ?t"
    by (rule contrapos_nn) (erule arg_cong)
  have w: "map_option written (stdout (snd (run_process example_world)))
       \<noteq> map_option written (stdout (snd (run_process utf16_world)))"
    unfolding a b using ne ne [symmetric] by (simp only: option.inject not_False_eq_True)
  from run_process_accepts [OF example_world_fields(1,3)]
  have e0: "exit_status example_world = 0"
    by (auto simp: exit_status_def)
  have e: "exit_status example_world \<noteq> exit_status full_world"
    using full_world_process by (simp add: e0)
  have c: "clock example_world (clock_reads example_world)
             = clock utf16_world (clock_reads utf16_world)"
    "clock example_world (clock_reads example_world) = clock full_world (clock_reads full_world)"
    by (simp_all add: example_world_fields u(2) full_world_fields)
  have r: "stdio_from_environ example_world" "stdio_from_environ utf16_world"
    by (simp_all add: stdio_from_environ_def example_world_def utf16_world_def codec_named_def)
  from c r w e show ?thesis
    by (intro conjI)
qed

text \<open>
  Claim C10, amended. The serialized text depends on the clock reading only. Two runs
  that see the same clock reading and the same standard output stream (encoding,
  buffering, device) leave the same bytes on it and end with the same status, whatever
  their command lines, environments and earlier clock readings.
\<close>

theorem output_depends_on_clock_and_stream:
  assumes "clock w1 (clock_reads w1) = clock w2 (clock_reads w2)"
    and "stdout w1 = stdout w2"
  shows "json_dumps (fst (create_project_status w1)) 2
           = json_dumps (fst (create_project_status w2)) 2
       \<and> exit_status w1 = exit_status w2
       \<and> stdout (snd (run_process w1)) = stdout (snd (run_process w2))"
  using run_process_stream_only [OF assms] assms(1)
  by (simp add: exit_status_def dumps_status)

theorem output_depends_on_clock_and_stream_witness:
  "(clock example_world (clock_reads example_world) = clock other_world (clock_reads other_world)
      \<and> stdout example_world = stdout other_world)
   \<and> argv example_world \<noteq> argv other_world
   \<and> environ example_world \<noteq> environ other_world
   \<and> clock_reads example_world \<noteq> clock_reads other_world
   \<and> exit_status example_world = exit_status other_world
   \<and> stdout (snd (run_process example_world)) = stdout (snd (run_process other_world))"
proof -
  have c: "clock example_world (clock_reads example_world)
             = clock other_world (clock_reads other_world)"
    by (simp add: example_world_def other_world_def)
  have s: "stdout example_world = stdout other_world"
    by (simp add: example_world_def other_world_def)
  have d: "argv example_world \<noteq> argv other_world"
    "environ example_world \<noteq> environ other_world"
    "clock_reads example_world \<noteq> clock_reads other_world"
    by (simp_all add: example_world_def other_world_def)
  from output_depends_on_clock_and_stream [OF c s]
  have "exit_status example_world = exit_status other_world"
    "stdout (snd (run_process example_world)) = stdout (snd (run_process other_world))"
    by simp_all
  with c s d show ?thesis
    by (intro conjI)
qed

end
